theory Spec2Isabelle
  imports Main "HOL-Library.Word"
begin

unbundle bit_operations_syntax

section \<open>Data model\<close>

text \<open>
  The engine works on JavaScript arrays of numbers that hold bytes. A byte is modelled
  as an 8-bit word, so that \<open>XOR\<close> is the bitwise operator \<open>^\<close> of the source on
  values in 0..255; array lengths and indices are natural numbers. The 4x4 state of
  \<open>aesCore.ts\<close> is a list of four rows, as the source builds it with
  \<open>Array(4).fill(0).map(() => Array(4).fill(0))\<close>.
\<close>

type_synonym byte = "8 word"
type_synonym state = "byte list list"

text \<open>
  Every \<open>throw new Error(...)\<close> of the source is a constructor; the arguments are the
  values the source interpolates into the message. \<open>DecryptionFailedInvalidPadding\<close>
  is the fixed message thrown by \<open>decryptCBC\<close>; \<open>DecryptionFailed e\<close> is the message
  built by \<open>decryptCBCWithSteps\<close>, which embeds the message of the error \<open>e\<close> it caught.
\<close>

datatype padding_detail =
    BadLength nat
  | Mismatch nat nat nat

datatype error =
    InvalidKeyLength nat
  | InvalidIVLength nat
  | InvalidBlockLength nat
  | InvalidCiphertextLength nat
  | LengthMismatch nat nat
  | EmptyInput
  | InvalidPadding padding_detail
  | DecryptionFailedInvalidPadding
  | DecryptionFailed error

section \<open>Constants (aesConstants.ts)\<close>

text \<open>
  Modelled from the spec: the file \<open>aesConstants.ts\<close> is imported by every module of
  the engine but is not among the sources. Its constants are taken from the
  specification: a block of 16 bytes; 10, 12 and 14 rounds for keys of 128, 192 and 256
  bits; the forward S-box of AES and its inverse; the round constants indexed from 1;
  and the multiplication tables, each defined as \<open>table[b] = gfMultiply(b, constant)\<close>
  under the reduction polynomial \<open>x^8 + x^4 + x^3 + x + 1\<close>.
\<close>

text \<open>Modelled from the spec: a block is exactly 16 bytes.\<close>

definition BLOCK_SIZE_BYTES :: nat where
  "BLOCK_SIZE_BYTES = 16"

text \<open>
  Modelled from the spec: the members \<open>AES_128\<close>, \<open>AES_192\<close> and \<open>AES_256\<close>
  of \<open>KEY_SIZES\<close>, the key sizes in bits.
\<close>

definition KEY_SIZES_AES_128 :: nat where
  "KEY_SIZES_AES_128 = 128"

definition KEY_SIZES_AES_192 :: nat where
  "KEY_SIZES_AES_192 = 192"

definition KEY_SIZES_AES_256 :: nat where
  "KEY_SIZES_AES_256 = 256"

text \<open>
  Modelled from the spec: the table \<open>NUM_ROUNDS\<close>, 10, 12 and 14 rounds for keys of
  128, 192 and 256 bits. \<open>keyExpansion\<close> reads it at these three sizes only.
\<close>

definition NUM_ROUNDS :: "nat \<Rightarrow> nat" where
  "NUM_ROUNDS keySize =
     (if keySize = 128 then 10 else if keySize = 192 then 12 else 14)"

text \<open>Modelled from the spec: the forward S-box of AES, a table of 256 bytes.\<close>

definition SBOX :: "byte list" where
  "SBOX =
    [
     0x63, 0x7c, 0x77, 0x7b, 0xf2, 0x6b, 0x6f, 0xc5, 0x30, 0x01, 0x67, 0x2b, 0xfe, 0xd7, 0xab, 0x76,
     0xca, 0x82, 0xc9, 0x7d, 0xfa, 0x59, 0x47, 0xf0, 0xad, 0xd4, 0xa2, 0xaf, 0x9c, 0xa4, 0x72, 0xc0,
     0xb7, 0xfd, 0x93, 0x26, 0x36, 0x3f, 0xf7, 0xcc, 0x34, 0xa5, 0xe5, 0xf1, 0x71, 0xd8, 0x31, 0x15,
     0x04, 0xc7, 0x23, 0xc3, 0x18, 0x96, 0x05, 0x9a, 0x07, 0x12, 0x80, 0xe2, 0xeb, 0x27, 0xb2, 0x75,
     0x09, 0x83, 0x2c, 0x1a, 0x1b, 0x6e, 0x5a, 0xa0, 0x52, 0x3b, 0xd6, 0xb3, 0x29, 0xe3, 0x2f, 0x84,
     0x53, 0xd1, 0x00, 0xed, 0x20, 0xfc, 0xb1, 0x5b, 0x6a, 0xcb, 0xbe, 0x39, 0x4a, 0x4c, 0x58, 0xcf,
     0xd0, 0xef, 0xaa, 0xfb, 0x43, 0x4d, 0x33, 0x85, 0x45, 0xf9, 0x02, 0x7f, 0x50, 0x3c, 0x9f, 0xa8,
     0x51, 0xa3, 0x40, 0x8f, 0x92, 0x9d, 0x38, 0xf5, 0xbc, 0xb6, 0xda, 0x21, 0x10, 0xff, 0xf3, 0xd2,
     0xcd, 0x0c, 0x13, 0xec, 0x5f, 0x97, 0x44, 0x17, 0xc4, 0xa7, 0x7e, 0x3d, 0x64, 0x5d, 0x19, 0x73,
     0x60, 0x81, 0x4f, 0xdc, 0x22, 0x2a, 0x90, 0x88, 0x46, 0xee, 0xb8, 0x14, 0xde, 0x5e, 0x0b, 0xdb,
     0xe0, 0x32, 0x3a, 0x0a, 0x49, 0x06, 0x24, 0x5c, 0xc2, 0xd3, 0xac, 0x62, 0x91, 0x95, 0xe4, 0x79,
     0xe7, 0xc8, 0x37, 0x6d, 0x8d, 0xd5, 0x4e, 0xa9, 0x6c, 0x56, 0xf4, 0xea, 0x65, 0x7a, 0xae, 0x08,
     0xba, 0x78, 0x25, 0x2e, 0x1c, 0xa6, 0xb4, 0xc6, 0xe8, 0xdd, 0x74, 0x1f, 0x4b, 0xbd, 0x8b, 0x8a,
     0x70, 0x3e, 0xb5, 0x66, 0x48, 0x03, 0xf6, 0x0e, 0x61, 0x35, 0x57, 0xb9, 0x86, 0xc1, 0x1d, 0x9e,
     0xe1, 0xf8, 0x98, 0x11, 0x69, 0xd9, 0x8e, 0x94, 0x9b, 0x1e, 0x87, 0xe9, 0xce, 0x55, 0x28, 0xdf,
     0x8c, 0xa1, 0x89, 0x0d, 0xbf, 0xe6, 0x42, 0x68, 0x41, 0x99, 0x2d, 0x0f, 0xb0, 0x54, 0xbb, 0x16
    ]"

text \<open>Modelled from the spec: the inverse S-box of AES.\<close>

definition INV_SBOX :: "byte list" where
  "INV_SBOX =
    [
     0x52, 0x09, 0x6a, 0xd5, 0x30, 0x36, 0xa5, 0x38, 0xbf, 0x40, 0xa3, 0x9e, 0x81, 0xf3, 0xd7, 0xfb,
     0x7c, 0xe3, 0x39, 0x82, 0x9b, 0x2f, 0xff, 0x87, 0x34, 0x8e, 0x43, 0x44, 0xc4, 0xde, 0xe9, 0xcb,
     0x54, 0x7b, 0x94, 0x32, 0xa6, 0xc2, 0x23, 0x3d, 0xee, 0x4c, 0x95, 0x0b, 0x42, 0xfa, 0xc3, 0x4e,
     0x08, 0x2e, 0xa1, 0x66, 0x28, 0xd9, 0x24, 0xb2, 0x76, 0x5b, 0xa2, 0x49, 0x6d, 0x8b, 0xd1, 0x25,
     0x72, 0xf8, 0xf6, 0x64, 0x86, 0x68, 0x98, 0x16, 0xd4, 0xa4, 0x5c, 0xcc, 0x5d, 0x65, 0xb6, 0x92,
     0x6c, 0x70, 0x48, 0x50, 0xfd, 0xed, 0xb9, 0xda, 0x5e, 0x15, 0x46, 0x57, 0xa7, 0x8d, 0x9d, 0x84,
     0x90, 0xd8, 0xab, 0x00, 0x8c, 0xbc, 0xd3, 0x0a, 0xf7, 0xe4, 0x58, 0x05, 0xb8, 0xb3, 0x45, 0x06,
     0xd0, 0x2c, 0x1e, 0x8f, 0xca, 0x3f, 0x0f, 0x02, 0xc1, 0xaf, 0xbd, 0x03, 0x01, 0x13, 0x8a, 0x6b,
     0x3a, 0x91, 0x11, 0x41, 0x4f, 0x67, 0xdc, 0xea, 0x97, 0xf2, 0xcf, 0xce, 0xf0, 0xb4, 0xe6, 0x73,
     0x96, 0xac, 0x74, 0x22, 0xe7, 0xad, 0x35, 0x85, 0xe2, 0xf9, 0x37, 0xe8, 0x1c, 0x75, 0xdf, 0x6e,
     0x47, 0xf1, 0x1a, 0x71, 0x1d, 0x29, 0xc5, 0x89, 0x6f, 0xb7, 0x62, 0x0e, 0xaa, 0x18, 0xbe, 0x1b,
     0xfc, 0x56, 0x3e, 0x4b, 0xc6, 0xd2, 0x79, 0x20, 0x9a, 0xdb, 0xc0, 0xfe, 0x78, 0xcd, 0x5a, 0xf4,
     0x1f, 0xdd, 0xa8, 0x33, 0x88, 0x07, 0xc7, 0x31, 0xb1, 0x12, 0x10, 0x59, 0x27, 0x80, 0xec, 0x5f,
     0x60, 0x51, 0x7f, 0xa9, 0x19, 0xb5, 0x4a, 0x0d, 0x2d, 0xe5, 0x7a, 0x9f, 0x93, 0xc9, 0x9c, 0xef,
     0xa0, 0xe0, 0x3b, 0x4d, 0xae, 0x2a, 0xf5, 0xb0, 0xc8, 0xeb, 0xbb, 0x3c, 0x83, 0x53, 0x99, 0x61,
     0x17, 0x2b, 0x04, 0x7e, 0xba, 0x77, 0xd6, 0x26, 0xe1, 0x69, 0x14, 0x63, 0x55, 0x21, 0x0c, 0x7d
    ]"

text \<open>
  Modelled from the spec: the round constants, indexed from 1; the entry at index 0 is
  never read by \<open>keyExpansion\<close>.
\<close>

definition RCON :: "byte list" where
  "RCON = [0x00, 0x01, 0x02, 0x04, 0x08, 0x10, 0x20, 0x40, 0x80, 0x1b, 0x36]"

text \<open>
  Modelled from the spec: the carry-less multiply-and-reduce algorithm over GF(2^8).
  \<open>xtime\<close> doubles a field element: shift left by one bit, keep eight bits, and reduce
  by \<open>0x1b\<close> when the bit shifted out was set. \<open>gfMultiply\<close> runs the eight
  shift-and-add steps.
\<close>

definition xtime :: "byte \<Rightarrow> byte" where
  "xtime a = (if bit a 7 then push_bit 1 a XOR 0x1b else push_bit 1 a)"

fun gfMultiply_loop :: "nat \<Rightarrow> byte \<Rightarrow> byte \<Rightarrow> byte \<Rightarrow> byte" where
  "gfMultiply_loop 0 a b p = p"
| "gfMultiply_loop (Suc n) a b p =
     gfMultiply_loop n (xtime a) (drop_bit 1 b) (if bit b 0 then p XOR a else p)"

definition gfMultiply :: "byte \<Rightarrow> byte \<Rightarrow> byte" where
  "gfMultiply a b = gfMultiply_loop 8 a b 0"

text \<open>
  Modelled from the spec: the multiplication tables for the constants 2, 3, 9, 11, 13
  and 14, each \<open>table[b] = gfMultiply(b, constant)\<close> for the bytes \<open>b\<close> from 0 to 255.
\<close>

definition all_bytes :: "byte list" where
  "all_bytes = map of_nat [0..<256]"

definition MULT_2 :: "byte list" where
  "MULT_2 = map (\<lambda>b. gfMultiply b 2) all_bytes"

definition MULT_3 :: "byte list" where
  "MULT_3 = map (\<lambda>b. gfMultiply b 3) all_bytes"

definition MULT_9 :: "byte list" where
  "MULT_9 = map (\<lambda>b. gfMultiply b 9) all_bytes"

definition MULT_11 :: "byte list" where
  "MULT_11 = map (\<lambda>b. gfMultiply b 11) all_bytes"

definition MULT_13 :: "byte list" where
  "MULT_13 = map (\<lambda>b. gfMultiply b 13) all_bytes"

definition MULT_14 :: "byte list" where
  "MULT_14 = map (\<lambda>b. gfMultiply b 14) all_bytes"

section \<open>Key schedule (keyExpansion.ts)\<close>

text \<open>
  One iteration of the expansion loop: the word \<open>w[i]\<close> is computed from \<open>w[i - 1]\<close>
  and \<open>w[i - Nk]\<close> and stored in the word array.
\<close>

definition expand_word :: "nat \<Rightarrow> byte list list \<Rightarrow> nat \<Rightarrow> byte list list" where
  "expand_word Nk w i =
     (let temp = w ! (i - 1) in
      if i mod Nk = 0 then
        (let rotWord = [temp ! 1, temp ! 2, temp ! 3, temp ! 0];
             subWord = map (\<lambda>b. SBOX ! unat b) rotWord;
             subWord = subWord[0 := subWord ! 0 XOR RCON ! (i div Nk)]
         in w[i := map (\<lambda>j. subWord ! j XOR w ! (i - Nk) ! j) [0..<length subWord]])
      else if Nk > 6 \<and> i mod Nk = 4 then
        (let subWord = map (\<lambda>b. SBOX ! unat b) temp
         in w[i := map (\<lambda>j. subWord ! j XOR w ! (i - Nk) ! j) [0..<length subWord]])
      else w[i := map (\<lambda>j. temp ! j XOR w ! (i - Nk) ! j) [0..<length temp]])"

definition keyExpansion :: "byte list \<Rightarrow> error + byte list list" where
  "keyExpansion key =
     (let keyLengthBytes = length key in
      if keyLengthBytes \<noteq> 16 \<and> keyLengthBytes \<noteq> 24 \<and> keyLengthBytes \<noteq> 32
      then Inl (InvalidKeyLength keyLengthBytes)
      else
        let keySize = (if keyLengthBytes = 16 then KEY_SIZES_AES_128
                       else if keyLengthBytes = 24 then KEY_SIZES_AES_192
                       else KEY_SIZES_AES_256);
            numRounds = NUM_ROUNDS keySize;
            Nk = keyLengthBytes div 4;
            Nb = 4;
            Nr = numRounds;
            expandedKeyWords = Nb * (Nr + 1);
            w = replicate expandedKeyWords (replicate 4 0);
            w = fold (\<lambda>i w. w[i := [key ! (4 * i), key ! (4 * i + 1),
                                      key ! (4 * i + 2), key ! (4 * i + 3)]]) [0..<Nk] w;
            w = fold (\<lambda>i w. expand_word Nk w i) [Nk..<expandedKeyWords] w
        in Inr (map (\<lambda>i. concat (map (\<lambda>j. w ! (i * 4 + j)) [0..<4])) [0..<numRounds + 1]))"

section \<open>Block transform (aesCore.ts)\<close>

text \<open>
  The four round primitives. Each gives the 4x4 matrix that the loops of the source
  fill from the entries \<open>state[row][col]\<close> of the argument. \<open>subBytes\<close> and
  \<open>invSubBytes\<close> start from a copy of the argument and overwrite these sixteen
  entries, the others from a matrix of zeros; on a 4x4 state the result is the same.
\<close>

definition subBytes :: "state \<Rightarrow> state" where
  "subBytes state =
     map (\<lambda>row. map (\<lambda>col. SBOX ! unat (state ! row ! col)) [0..<4]) [0..<4]"

definition invSubBytes :: "state \<Rightarrow> state" where
  "invSubBytes state =
     map (\<lambda>row. map (\<lambda>col. INV_SBOX ! unat (state ! row ! col)) [0..<4]) [0..<4]"

definition shiftRows :: "state \<Rightarrow> state" where
  "shiftRows state =
     [[state ! 0 ! 0, state ! 0 ! 1, state ! 0 ! 2, state ! 0 ! 3],
      [state ! 1 ! 1, state ! 1 ! 2, state ! 1 ! 3, state ! 1 ! 0],
      [state ! 2 ! 2, state ! 2 ! 3, state ! 2 ! 0, state ! 2 ! 1],
      [state ! 3 ! 3, state ! 3 ! 0, state ! 3 ! 1, state ! 3 ! 2]]"

definition invShiftRows :: "state \<Rightarrow> state" where
  "invShiftRows state =
     [[state ! 0 ! 0, state ! 0 ! 1, state ! 0 ! 2, state ! 0 ! 3],
      [state ! 1 ! 3, state ! 1 ! 0, state ! 1 ! 1, state ! 1 ! 2],
      [state ! 2 ! 2, state ! 2 ! 3, state ! 2 ! 0, state ! 2 ! 1],
      [state ! 3 ! 1, state ! 3 ! 2, state ! 3 ! 3, state ! 3 ! 0]]"

definition mixColumns :: "state \<Rightarrow> state" where
  "mixColumns state =
     [map (\<lambda>col. MULT_2 ! unat (state ! 0 ! col) XOR MULT_3 ! unat (state ! 1 ! col)
                  XOR state ! 2 ! col XOR state ! 3 ! col) [0..<4],
      map (\<lambda>col. state ! 0 ! col XOR MULT_2 ! unat (state ! 1 ! col)
                  XOR MULT_3 ! unat (state ! 2 ! col) XOR state ! 3 ! col) [0..<4],
      map (\<lambda>col. state ! 0 ! col XOR state ! 1 ! col
                  XOR MULT_2 ! unat (state ! 2 ! col) XOR MULT_3 ! unat (state ! 3 ! col)) [0..<4],
      map (\<lambda>col. MULT_3 ! unat (state ! 0 ! col) XOR state ! 1 ! col
                  XOR state ! 2 ! col XOR MULT_2 ! unat (state ! 3 ! col)) [0..<4]]"

definition invMixColumns :: "state \<Rightarrow> state" where
  "invMixColumns state =
     [map (\<lambda>col. MULT_14 ! unat (state ! 0 ! col) XOR MULT_11 ! unat (state ! 1 ! col)
                  XOR MULT_13 ! unat (state ! 2 ! col) XOR MULT_9 ! unat (state ! 3 ! col)) [0..<4],
      map (\<lambda>col. MULT_9 ! unat (state ! 0 ! col) XOR MULT_14 ! unat (state ! 1 ! col)
                  XOR MULT_11 ! unat (state ! 2 ! col) XOR MULT_13 ! unat (state ! 3 ! col)) [0..<4],
      map (\<lambda>col. MULT_13 ! unat (state ! 0 ! col) XOR MULT_9 ! unat (state ! 1 ! col)
                  XOR MULT_14 ! unat (state ! 2 ! col) XOR MULT_11 ! unat (state ! 3 ! col)) [0..<4],
      map (\<lambda>col. MULT_11 ! unat (state ! 0 ! col) XOR MULT_13 ! unat (state ! 1 ! col)
                  XOR MULT_9 ! unat (state ! 2 ! col) XOR MULT_14 ! unat (state ! 3 ! col)) [0..<4]]"

definition addRoundKey :: "state \<Rightarrow> byte list \<Rightarrow> state" where
  "addRoundKey state roundKey =
     (let keyMatrix = map (\<lambda>row. map (\<lambda>col. roundKey ! (col * 4 + row)) [0..<4]) [0..<4]
      in map (\<lambda>row. map (\<lambda>col. state ! row ! col XOR keyMatrix ! row ! col) [0..<4]) [0..<4])"

definition bytesToState :: "byte list \<Rightarrow> error + state" where
  "bytesToState bytes =
     (if length bytes \<noteq> BLOCK_SIZE_BYTES then Inl (InvalidBlockLength (length bytes))
      else Inr (fold (\<lambda>i state. state[i mod 4 := (state ! (i mod 4))[i div 4 := bytes ! i]])
                  [0..<BLOCK_SIZE_BYTES] (replicate 4 (replicate 4 0))))"

definition stateToBytes :: "state \<Rightarrow> byte list" where
  "stateToBytes state =
     fold (\<lambda>col bytes. fold (\<lambda>row bytes. bytes[col * 4 + row := state ! row ! col]) [0..<4] bytes)
       [0..<4] (replicate BLOCK_SIZE_BYTES 0)"

definition aesEncryptionRound :: "state \<Rightarrow> byte list \<Rightarrow> bool \<Rightarrow> state" where
  "aesEncryptionRound state roundKey isFinalRound =
     (let newState = subBytes state;
          newState = shiftRows newState;
          newState = (if \<not> isFinalRound then mixColumns newState else newState)
      in addRoundKey newState roundKey)"

definition aesDecryptionRound :: "state \<Rightarrow> byte list \<Rightarrow> bool \<Rightarrow> state" where
  "aesDecryptionRound state roundKey isFirstRound =
     (let newState = invShiftRows state;
          newState = invSubBytes newState;
          newState = addRoundKey newState roundKey
      in if \<not> isFirstRound then invMixColumns newState else newState)"

definition aesEncryptBlock :: "byte list \<Rightarrow> byte list \<Rightarrow> error + byte list" where
  "aesEncryptBlock block key =
     (case keyExpansion key of
        Inl e \<Rightarrow> Inl e
      | Inr roundKeys \<Rightarrow>
          let numRounds = length roundKeys - 1 in
          (case bytesToState block of
             Inl e \<Rightarrow> Inl e
           | Inr state \<Rightarrow>
               let state = addRoundKey state (roundKeys ! 0);
                   state = fold (\<lambda>round state. aesEncryptionRound state (roundKeys ! round) False)
                             [1..<numRounds] state;
                   state = aesEncryptionRound state (roundKeys ! numRounds) True
               in Inr (stateToBytes state)))"

definition aesDecryptBlock :: "byte list \<Rightarrow> byte list \<Rightarrow> error + byte list" where
  "aesDecryptBlock block key =
     (case keyExpansion key of
        Inl e \<Rightarrow> Inl e
      | Inr roundKeys \<Rightarrow>
          let numRounds = length roundKeys - 1 in
          (case bytesToState block of
             Inl e \<Rightarrow> Inl e
           | Inr state \<Rightarrow>
               let state = addRoundKey state (roundKeys ! numRounds);
                   state = fold (\<lambda>round state. aesDecryptionRound state (roundKeys ! round) False)
                             (rev [1..<numRounds]) state;
                   state = aesDecryptionRound state (roundKeys ! 0) True
               in Inr (stateToBytes state)))"

section \<open>Byte and text utilities (utils.ts)\<close>

text \<open>
  \<open>Math.random\<close> is a parameter: \<open>rnd i\<close> is the byte
  \<open>Math.floor(Math.random() * 256)\<close> of the \<open>i\<close>-th draw.
\<close>

definition generateRandomBytes :: "(nat \<Rightarrow> byte) \<Rightarrow> nat \<Rightarrow> byte list" where
  "generateRandomBytes rnd len = map rnd [0..<len]"

definition xorBytes :: "byte list \<Rightarrow> byte list \<Rightarrow> error + byte list" where
  "xorBytes a b =
     (if length a \<noteq> length b then Inl (LengthMismatch (length a) (length b))
      else Inr (map (\<lambda>i. a ! i XOR b ! i) [0..<length a]))"

definition isValidKeyLength :: "'a list \<Rightarrow> bool" where
  "isValidKeyLength key \<longleftrightarrow> length key = 16 \<or> length key = 24 \<or> length key = 32"

section \<open>CBC mode (cbcMode.ts)\<close>

definition padPKCS7 :: "byte list \<Rightarrow> nat \<Rightarrow> byte list" where
  "padPKCS7 data blockSize =
     (let paddingLength = blockSize - (length data mod blockSize)
      in fold (\<lambda>i padded. padded @ [of_nat paddingLength]) [0..<paddingLength] data)"

definition unpadPKCS7 :: "byte list \<Rightarrow> error + byte list" where
  "unpadPKCS7 data =
     (if length data = 0 then Inl EmptyInput
      else
        let paddingLength = unat (data ! (length data - 1)) in
        if paddingLength \<le> 0 \<or> paddingLength > BLOCK_SIZE_BYTES \<or> paddingLength > length data
        then Inl (InvalidPadding (BadLength paddingLength))
        else
          (case find (\<lambda>i. unat (data ! i) \<noteq> paddingLength)
                  [length data - paddingLength..<length data] of
             Some i \<Rightarrow> Inl (InvalidPadding (Mismatch paddingLength (unat (data ! i)) i))
           | None \<Rightarrow> Inr (take (length data - paddingLength) data)))"

text \<open>
  The object \<open>{ iv, ciphertext }\<close> returned by \<open>encryptCBC\<close>. The fields of the
  records carry the names of the source with a prefix, so that the names stay free for
  the variables of the functions: \<open>c_\<close> here, \<open>e_\<close> and \<open>d_\<close> for the
  encryption and decryption traces.
\<close>

record cbc_result =
  c_iv :: "byte list"
  c_ciphertext :: "byte list"

text \<open>
  The block loops of the four CBC functions, one recursive call per iteration; \<open>i\<close> is
  the loop index and \<open>slice(i, i + 16)\<close> is \<open>take 16 (drop i xs)\<close>.
\<close>

function encryptCBC_loop ::
  "byte list \<Rightarrow> byte list \<Rightarrow> nat \<Rightarrow> byte list \<Rightarrow> byte list \<Rightarrow> error + byte list" where
  "encryptCBC_loop paddedPlaintext key i previousBlock ciphertext =
     (if i < length paddedPlaintext then
        (let block = take BLOCK_SIZE_BYTES (drop i paddedPlaintext) in
         case xorBytes block previousBlock of
           Inl e \<Rightarrow> Inl e
         | Inr xoredBlock \<Rightarrow>
             (case aesEncryptBlock xoredBlock key of
                Inl e \<Rightarrow> Inl e
              | Inr encryptedBlock \<Rightarrow>
                  encryptCBC_loop paddedPlaintext key (i + BLOCK_SIZE_BYTES) encryptedBlock
                    (ciphertext @ encryptedBlock)))
      else Inr ciphertext)"
  by pat_completeness auto
termination
  by (relation "measure (\<lambda>(p, k, i, pb, c). length p - i)") (auto simp: BLOCK_SIZE_BYTES_def)

definition encryptCBC ::
  "(nat \<Rightarrow> byte) \<Rightarrow> byte list \<Rightarrow> byte list \<Rightarrow> byte list option \<Rightarrow> error + cbc_result" where
  "encryptCBC rnd plaintext key iv_opt =
     (let initVector = (case iv_opt of Some v \<Rightarrow> v
                        | None \<Rightarrow> generateRandomBytes rnd BLOCK_SIZE_BYTES) in
      if length initVector \<noteq> BLOCK_SIZE_BYTES then Inl (InvalidIVLength (length initVector))
      else
        let paddedPlaintext = padPKCS7 plaintext BLOCK_SIZE_BYTES in
        case encryptCBC_loop paddedPlaintext key 0 initVector [] of
          Inl e \<Rightarrow> Inl e
        | Inr c \<Rightarrow> Inr \<lparr>c_iv = initVector, c_ciphertext = c\<rparr>)"

function decryptCBC_loop ::
  "byte list \<Rightarrow> byte list \<Rightarrow> nat \<Rightarrow> byte list \<Rightarrow> byte list \<Rightarrow> error + byte list" where
  "decryptCBC_loop ciphertext key i previousBlock plaintext =
     (if i < length ciphertext then
        (let block = take BLOCK_SIZE_BYTES (drop i ciphertext) in
         case aesDecryptBlock block key of
           Inl e \<Rightarrow> Inl e
         | Inr decryptedBlock \<Rightarrow>
             (case xorBytes decryptedBlock previousBlock of
                Inl e \<Rightarrow> Inl e
              | Inr xoredBlock \<Rightarrow>
                  decryptCBC_loop ciphertext key (i + BLOCK_SIZE_BYTES) block
                    (plaintext @ xoredBlock)))
      else Inr plaintext)"
  by pat_completeness auto
termination
  by (relation "measure (\<lambda>(c, k, i, pb, p). length c - i)") (auto simp: BLOCK_SIZE_BYTES_def)

text \<open>
  Errors thrown by the block loop of \<open>decryptCBC\<close> leave the function as they are; only
  the call of \<open>unpadPKCS7\<close> is inside the \<open>try\<close>, and whatever it throws is replaced by
  the fixed message.
\<close>

definition decryptCBC :: "byte list \<Rightarrow> byte list \<Rightarrow> byte list \<Rightarrow> error + byte list" where
  "decryptCBC ciphertext key iv =
     (if length iv \<noteq> BLOCK_SIZE_BYTES then Inl (InvalidIVLength (length iv))
      else if length ciphertext mod BLOCK_SIZE_BYTES \<noteq> 0
      then Inl (InvalidCiphertextLength (length ciphertext))
      else
        (case decryptCBC_loop ciphertext key 0 iv [] of
           Inl e \<Rightarrow> Inl e
         | Inr plaintext \<Rightarrow>
             (case unpadPKCS7 plaintext of
                Inl e \<Rightarrow> Inl DecryptionFailedInvalidPadding
              | Inr unpadded \<Rightarrow> Inr unpadded)))"

text \<open>The step traces of \<open>encryptCBCWithSteps\<close> and \<open>decryptCBCWithSteps\<close>.\<close>

record encryption_block =
  e_index :: nat
  e_plainBlock :: "byte list"
  e_xorWithPrevious :: "byte list"
  e_encrypted :: "byte list"

record encryption_steps =
  e_iv :: "byte list"
  e_plaintext :: "byte list"
  e_paddedPlaintext :: "byte list"
  e_blocks :: "encryption_block list"
  e_ciphertext :: "byte list"

record decryption_block =
  d_index :: nat
  d_cipherBlock :: "byte list"
  d_decrypted :: "byte list"
  d_xorWithPrevious :: "byte list"

record decryption_steps =
  d_iv :: "byte list"
  d_ciphertext :: "byte list"
  d_blocks :: "decryption_block list"
  d_paddedPlaintext :: "byte list"
  d_plaintext :: "byte list"

function encryptCBCWithSteps_loop ::
  "byte list \<Rightarrow> nat \<Rightarrow> byte list \<Rightarrow> encryption_steps \<Rightarrow> error + encryption_steps" where
  "encryptCBCWithSteps_loop key i previousBlock result =
     (if i < length (e_paddedPlaintext result) then
        (let plainBlock = take BLOCK_SIZE_BYTES (drop i (e_paddedPlaintext result)) in
         case xorBytes plainBlock previousBlock of
           Inl e \<Rightarrow> Inl e
         | Inr xoredBlock \<Rightarrow>
             (case aesEncryptBlock xoredBlock key of
                Inl e \<Rightarrow> Inl e
              | Inr encryptedBlock \<Rightarrow>
                  encryptCBCWithSteps_loop key (i + BLOCK_SIZE_BYTES) encryptedBlock
                    (result\<lparr>e_blocks := e_blocks result @
                               [\<lparr>e_index = i div BLOCK_SIZE_BYTES, e_plainBlock = plainBlock,
                                 e_xorWithPrevious = xoredBlock, e_encrypted = encryptedBlock\<rparr>],
                            e_ciphertext := e_ciphertext result @ encryptedBlock\<rparr>)))
      else Inr result)"
  by pat_completeness auto
termination
  by (relation "measure (\<lambda>(k, i, pb, r). length (e_paddedPlaintext r) - i)")
    (auto simp: BLOCK_SIZE_BYTES_def)

definition encryptCBCWithSteps ::
  "byte list \<Rightarrow> byte list \<Rightarrow> byte list \<Rightarrow> error + encryption_steps" where
  "encryptCBCWithSteps plaintext key iv =
     (let paddedPlaintext = padPKCS7 plaintext BLOCK_SIZE_BYTES;
          result = \<lparr>e_iv = iv, e_plaintext = plaintext, e_paddedPlaintext = paddedPlaintext,
                    e_blocks = [], e_ciphertext = []\<rparr>
      in encryptCBCWithSteps_loop key 0 iv result)"

function decryptCBCWithSteps_loop ::
  "byte list \<Rightarrow> nat \<Rightarrow> byte list \<Rightarrow> decryption_steps \<Rightarrow> error + decryption_steps" where
  "decryptCBCWithSteps_loop key i previousBlock result =
     (if i < length (d_ciphertext result) then
        (let cipherBlock = take BLOCK_SIZE_BYTES (drop i (d_ciphertext result)) in
         case aesDecryptBlock cipherBlock key of
           Inl e \<Rightarrow> Inl e
         | Inr decryptedBlock \<Rightarrow>
             (case xorBytes decryptedBlock previousBlock of
                Inl e \<Rightarrow> Inl e
              | Inr xoredBlock \<Rightarrow>
                  decryptCBCWithSteps_loop key (i + BLOCK_SIZE_BYTES) cipherBlock
                    (result\<lparr>d_blocks := d_blocks result @
                               [\<lparr>d_index = i div BLOCK_SIZE_BYTES, d_cipherBlock = cipherBlock,
                                 d_decrypted = decryptedBlock, d_xorWithPrevious = xoredBlock\<rparr>],
                            d_paddedPlaintext := d_paddedPlaintext result @ xoredBlock\<rparr>)))
      else Inr result)"
  by pat_completeness auto
termination
  by (relation "measure (\<lambda>(k, i, pb, r). length (d_ciphertext r) - i)")
    (auto simp: BLOCK_SIZE_BYTES_def)

text \<open>
  In \<open>decryptCBCWithSteps\<close> the \<open>try\<close> encloses the block loop and the call of
  \<open>unpadPKCS7\<close>; the \<open>catch\<close> rethrows with the message of the caught error embedded.
\<close>

definition decryptCBCWithSteps ::
  "byte list \<Rightarrow> byte list \<Rightarrow> byte list \<Rightarrow> error + decryption_steps" where
  "decryptCBCWithSteps ciphertext key iv =
     (let result = \<lparr>d_iv = iv, d_ciphertext = ciphertext, d_blocks = [],
                    d_paddedPlaintext = [], d_plaintext = []\<rparr>
      in case decryptCBCWithSteps_loop key 0 iv result of
           Inl e \<Rightarrow> Inl (DecryptionFailed e)
         | Inr result \<Rightarrow>
             (case unpadPKCS7 (d_paddedPlaintext result) of
                Inl e \<Rightarrow> Inl (DecryptionFailed e)
              | Inr unpadded \<Rightarrow> Inr (result\<lparr>d_plaintext := unpadded\<rparr>)))"

section \<open>The engine on JavaScript numbers\<close>

text \<open>
  The definitions above model the engine on arrays of bytes. The text interface can
  hand it other numbers: \<open>parseInt\<close> yields \<open>NaN\<close> and negative integers, and
  \<open>charCodeAt\<close> yields code units up to 65535. This section models the same functions
  on arbitrary JavaScript values, with the suffix \<open>_js\<close>; on arrays of bytes they
  agree with the byte model (lemmas \<open>keyExpansion_js_bytes\<close> to
  \<open>decryptCBC_js_bytes\<close> below).

  Every number the engine handles is an integer, so a value is an integer \<open>Num n\<close>,
  \<open>NaN\<close> or \<open>undefined\<close>; the negative zero is \<open>Num 0\<close>, from which no operation
  of the engine tells it apart. \<open>toInt32\<close> is the conversion that \<open>^\<close> applies to its
  operands, \<open>js_xor\<close> is \<open>^\<close>, and \<open>table_at t v\<close> is the read \<open>t[v]\<close> of a table
  of bytes at a value, \<open>undefined\<close> outside the table. All other array reads of the
  engine are at loop indices inside the array, as in the byte model.
\<close>

datatype js_value = Num int | NaN | Undefined

definition of_byte :: "byte \<Rightarrow> js_value" where
  "of_byte b = Num (uint b)"

definition toInt32 :: "js_value \<Rightarrow> 32 word" where
  "toInt32 v = (case v of Num n \<Rightarrow> word_of_int n | NaN \<Rightarrow> 0 | Undefined \<Rightarrow> 0)"

definition js_xor :: "js_value \<Rightarrow> js_value \<Rightarrow> js_value" where
  "js_xor a b = Num (sint (toInt32 a XOR toInt32 b))"

definition table_at :: "byte list \<Rightarrow> js_value \<Rightarrow> js_value" where
  "table_at t v =
     (case v of
        Num n \<Rightarrow> if 0 \<le> n \<and> n < int (length t) then of_byte (t ! nat n) else Undefined
      | NaN \<Rightarrow> Undefined
      | Undefined \<Rightarrow> Undefined)"

text \<open>
  The errors of the engine on JavaScript values: the messages of the source with the
  values they interpolate, which here may be negative or not a number.
  \<open>JsTypeError\<close> is the error of the runtime when \<open>toString\<close> is called on
  \<open>undefined\<close>.
\<close>

datatype js_error =
    JsInvalidKeyLength nat
  | JsInvalidIVLength nat
  | JsInvalidBlockLength nat
  | JsInvalidCiphertextLength nat
  | JsLengthMismatch nat nat
  | JsEmptyInput
  | JsInvalidPaddingLength int
  | JsInvalidPaddingByte int js_value nat
  | JsDecryptionFailedInvalidPadding
  | JsDecryptionFailed js_error
  | JsTypeError

subsection \<open>keyExpansion.ts and aesCore.ts\<close>

definition expand_word_js :: "nat \<Rightarrow> js_value list list \<Rightarrow> nat \<Rightarrow> js_value list list" where
  "expand_word_js Nk w i =
     (let temp = w ! (i - 1) in
      if i mod Nk = 0 then
        (let rotWord = [temp ! 1, temp ! 2, temp ! 3, temp ! 0];
             subWord = map (table_at SBOX) rotWord;
             subWord = subWord[0 := js_xor (subWord ! 0) (of_byte (RCON ! (i div Nk)))]
         in w[i := map (\<lambda>j. js_xor (subWord ! j) (w ! (i - Nk) ! j)) [0..<length subWord]])
      else if Nk > 6 \<and> i mod Nk = 4 then
        (let subWord = map (table_at SBOX) temp
         in w[i := map (\<lambda>j. js_xor (subWord ! j) (w ! (i - Nk) ! j)) [0..<length subWord]])
      else w[i := map (\<lambda>j. js_xor (temp ! j) (w ! (i - Nk) ! j)) [0..<length temp]])"

definition keyExpansion_js :: "js_value list \<Rightarrow> js_error + js_value list list" where
  "keyExpansion_js key =
     (let keyLengthBytes = length key in
      if keyLengthBytes \<noteq> 16 \<and> keyLengthBytes \<noteq> 24 \<and> keyLengthBytes \<noteq> 32
      then Inl (JsInvalidKeyLength keyLengthBytes)
      else
        let keySize = (if keyLengthBytes = 16 then KEY_SIZES_AES_128
                       else if keyLengthBytes = 24 then KEY_SIZES_AES_192
                       else KEY_SIZES_AES_256);
            numRounds = NUM_ROUNDS keySize;
            Nk = keyLengthBytes div 4;
            Nb = 4;
            Nr = numRounds;
            expandedKeyWords = Nb * (Nr + 1);
            w = replicate expandedKeyWords (replicate 4 (Num 0));
            w = fold (\<lambda>i w. w[i := [key ! (4 * i), key ! (4 * i + 1),
                                      key ! (4 * i + 2), key ! (4 * i + 3)]]) [0..<Nk] w;
            w = fold (\<lambda>i w. expand_word_js Nk w i) [Nk..<expandedKeyWords] w
        in Inr (map (\<lambda>i. concat (map (\<lambda>j. w ! (i * 4 + j)) [0..<4])) [0..<numRounds + 1]))"

definition subBytes_js :: "js_value list list \<Rightarrow> js_value list list" where
  "subBytes_js state =
     map (\<lambda>row. map (\<lambda>col. table_at SBOX (state ! row ! col)) [0..<4]) [0..<4]"

definition invSubBytes_js :: "js_value list list \<Rightarrow> js_value list list" where
  "invSubBytes_js state =
     map (\<lambda>row. map (\<lambda>col. table_at INV_SBOX (state ! row ! col)) [0..<4]) [0..<4]"

definition shiftRows_js :: "js_value list list \<Rightarrow> js_value list list" where
  "shiftRows_js state =
     [[state ! 0 ! 0, state ! 0 ! 1, state ! 0 ! 2, state ! 0 ! 3],
      [state ! 1 ! 1, state ! 1 ! 2, state ! 1 ! 3, state ! 1 ! 0],
      [state ! 2 ! 2, state ! 2 ! 3, state ! 2 ! 0, state ! 2 ! 1],
      [state ! 3 ! 3, state ! 3 ! 0, state ! 3 ! 1, state ! 3 ! 2]]"

definition invShiftRows_js :: "js_value list list \<Rightarrow> js_value list list" where
  "invShiftRows_js state =
     [[state ! 0 ! 0, state ! 0 ! 1, state ! 0 ! 2, state ! 0 ! 3],
      [state ! 1 ! 3, state ! 1 ! 0, state ! 1 ! 1, state ! 1 ! 2],
      [state ! 2 ! 2, state ! 2 ! 3, state ! 2 ! 0, state ! 2 ! 1],
      [state ! 3 ! 1, state ! 3 ! 2, state ! 3 ! 3, state ! 3 ! 0]]"

definition mixColumns_js :: "js_value list list \<Rightarrow> js_value list list" where
  "mixColumns_js state =
     [map (\<lambda>col. js_xor (js_xor (js_xor (table_at MULT_2 (state ! 0 ! col))
                    (table_at MULT_3 (state ! 1 ! col))) (state ! 2 ! col)) (state ! 3 ! col))
        [0..<4],
      map (\<lambda>col. js_xor (js_xor (js_xor (state ! 0 ! col)
                    (table_at MULT_2 (state ! 1 ! col))) (table_at MULT_3 (state ! 2 ! col)))
                    (state ! 3 ! col)) [0..<4],
      map (\<lambda>col. js_xor (js_xor (js_xor (state ! 0 ! col) (state ! 1 ! col))
                    (table_at MULT_2 (state ! 2 ! col))) (table_at MULT_3 (state ! 3 ! col)))
        [0..<4],
      map (\<lambda>col. js_xor (js_xor (js_xor (table_at MULT_3 (state ! 0 ! col))
                    (state ! 1 ! col)) (state ! 2 ! col)) (table_at MULT_2 (state ! 3 ! col)))
        [0..<4]]"

definition invMixColumns_js :: "js_value list list \<Rightarrow> js_value list list" where
  "invMixColumns_js state =
     [map (\<lambda>col. js_xor (js_xor (js_xor (table_at MULT_14 (state ! 0 ! col))
                    (table_at MULT_11 (state ! 1 ! col))) (table_at MULT_13 (state ! 2 ! col)))
                    (table_at MULT_9 (state ! 3 ! col))) [0..<4],
      map (\<lambda>col. js_xor (js_xor (js_xor (table_at MULT_9 (state ! 0 ! col))
                    (table_at MULT_14 (state ! 1 ! col))) (table_at MULT_11 (state ! 2 ! col)))
                    (table_at MULT_13 (state ! 3 ! col))) [0..<4],
      map (\<lambda>col. js_xor (js_xor (js_xor (table_at MULT_13 (state ! 0 ! col))
                    (table_at MULT_9 (state ! 1 ! col))) (table_at MULT_14 (state ! 2 ! col)))
                    (table_at MULT_11 (state ! 3 ! col))) [0..<4],
      map (\<lambda>col. js_xor (js_xor (js_xor (table_at MULT_11 (state ! 0 ! col))
                    (table_at MULT_13 (state ! 1 ! col))) (table_at MULT_9 (state ! 2 ! col)))
                    (table_at MULT_14 (state ! 3 ! col))) [0..<4]]"

definition addRoundKey_js :: "js_value list list \<Rightarrow> js_value list \<Rightarrow> js_value list list" where
  "addRoundKey_js state roundKey =
     (let keyMatrix = map (\<lambda>row. map (\<lambda>col. roundKey ! (col * 4 + row)) [0..<4]) [0..<4]
      in map (\<lambda>row. map (\<lambda>col. js_xor (state ! row ! col) (keyMatrix ! row ! col)) [0..<4])
           [0..<4])"

definition bytesToState_js :: "js_value list \<Rightarrow> js_error + js_value list list" where
  "bytesToState_js bytes =
     (if length bytes \<noteq> BLOCK_SIZE_BYTES then Inl (JsInvalidBlockLength (length bytes))
      else Inr (fold (\<lambda>i state. state[i mod 4 := (state ! (i mod 4))[i div 4 := bytes ! i]])
                  [0..<BLOCK_SIZE_BYTES] (replicate 4 (replicate 4 (Num 0)))))"

definition stateToBytes_js :: "js_value list list \<Rightarrow> js_value list" where
  "stateToBytes_js state =
     fold (\<lambda>col bytes. fold (\<lambda>row bytes. bytes[col * 4 + row := state ! row ! col]) [0..<4] bytes)
       [0..<4] (replicate BLOCK_SIZE_BYTES (Num 0))"

definition aesEncryptionRound_js ::
  "js_value list list \<Rightarrow> js_value list \<Rightarrow> bool \<Rightarrow> js_value list list" where
  "aesEncryptionRound_js state roundKey isFinalRound =
     (let newState = subBytes_js state;
          newState = shiftRows_js newState;
          newState = (if \<not> isFinalRound then mixColumns_js newState else newState)
      in addRoundKey_js newState roundKey)"

definition aesDecryptionRound_js ::
  "js_value list list \<Rightarrow> js_value list \<Rightarrow> bool \<Rightarrow> js_value list list" where
  "aesDecryptionRound_js state roundKey isFirstRound =
     (let newState = invShiftRows_js state;
          newState = invSubBytes_js newState;
          newState = addRoundKey_js newState roundKey
      in if \<not> isFirstRound then invMixColumns_js newState else newState)"

definition aesEncryptBlock_js :: "js_value list \<Rightarrow> js_value list \<Rightarrow> js_error + js_value list" where
  "aesEncryptBlock_js block key =
     (case keyExpansion_js key of
        Inl e \<Rightarrow> Inl e
      | Inr roundKeys \<Rightarrow>
          let numRounds = length roundKeys - 1 in
          (case bytesToState_js block of
             Inl e \<Rightarrow> Inl e
           | Inr state \<Rightarrow>
               let state = addRoundKey_js state (roundKeys ! 0);
                   state = fold (\<lambda>round state.
                                   aesEncryptionRound_js state (roundKeys ! round) False)
                             [1..<numRounds] state;
                   state = aesEncryptionRound_js state (roundKeys ! numRounds) True
               in Inr (stateToBytes_js state)))"

definition aesDecryptBlock_js :: "js_value list \<Rightarrow> js_value list \<Rightarrow> js_error + js_value list" where
  "aesDecryptBlock_js block key =
     (case keyExpansion_js key of
        Inl e \<Rightarrow> Inl e
      | Inr roundKeys \<Rightarrow>
          let numRounds = length roundKeys - 1 in
          (case bytesToState_js block of
             Inl e \<Rightarrow> Inl e
           | Inr state \<Rightarrow>
               let state = addRoundKey_js state (roundKeys ! numRounds);
                   state = fold (\<lambda>round state.
                                   aesDecryptionRound_js state (roundKeys ! round) False)
                             (rev [1..<numRounds]) state;
                   state = aesDecryptionRound_js state (roundKeys ! 0) True
               in Inr (stateToBytes_js state)))"

subsection \<open>utils.ts\<close>

definition generateRandomBytes_js :: "(nat \<Rightarrow> byte) \<Rightarrow> nat \<Rightarrow> js_value list" where
  "generateRandomBytes_js rnd len = map of_byte (generateRandomBytes rnd len)"

definition xorBytes_js :: "js_value list \<Rightarrow> js_value list \<Rightarrow> js_error + js_value list" where
  "xorBytes_js a b =
     (if length a \<noteq> length b then Inl (JsLengthMismatch (length a) (length b))
      else Inr (map (\<lambda>i. js_xor (a ! i) (b ! i)) [0..<length a]))"

text \<open>
  A JavaScript string is the list of its 16-bit code units; \<open>js_string\<close> writes one
  from a literal of 8-bit characters. \<open>is_space\<close> is the class \<open>\s\<close> of the regular
  expressions, which is also the white space that \<open>parseInt\<close> skips; \<open>hex_digit\<close>
  reads one digit of radix 16.
\<close>

type_synonym code_unit = "16 word"
type_synonym js_string = "code_unit list"

definition js_string :: "string \<Rightarrow> js_string" where
  "js_string s = map (\<lambda>c. of_nat (of_char c)) s"

definition is_space :: "code_unit \<Rightarrow> bool" where
  "is_space c \<longleftrightarrow>
     (let n = unat c in
      n = 0x09 \<or> n = 0x0a \<or> n = 0x0b \<or> n = 0x0c \<or> n = 0x0d \<or> n = 0x20 \<or> n = 0xa0
      \<or> n = 0x1680 \<or> (0x2000 \<le> n \<and> n \<le> 0x200a) \<or> n = 0x2028 \<or> n = 0x2029
      \<or> n = 0x202f \<or> n = 0x205f \<or> n = 0x3000 \<or> n = 0xfeff)"

definition hex_digit :: "code_unit \<Rightarrow> nat option" where
  "hex_digit c =
     (let n = unat c in
      if 48 \<le> n \<and> n \<le> 57 then Some (n - 48)
      else if 97 \<le> n \<and> n \<le> 102 then Some (n - 87)
      else if 65 \<le> n \<and> n \<le> 70 then Some (n - 55)
      else None)"

text \<open>
  The built-in \<open>parseInt(s, 16)\<close>: leading white space is skipped, then come an
  optional sign, an optional prefix \<open>0x\<close> or \<open>0X\<close> and the longest run of hexadecimal
  digits; the result is \<open>NaN\<close> when that run is empty. The value is exact for the
  runs of at most two digits that \<open>hexToBytes\<close> passes.
\<close>

definition parseInt16 :: "js_string \<Rightarrow> js_value" where
  "parseInt16 s =
     (let s = dropWhile is_space s;
          (sign, r) = (case s of
                         [] \<Rightarrow> (1, [])
                       | c # cs \<Rightarrow> if c = 0x2d then (- 1, cs)
                                   else if c = 0x2b then (1, cs) else (1, s));
          r = (if take 2 r = [0x30, 0x78] \<or> take 2 r = [0x30, 0x58] then drop 2 r else r);
          digits = takeWhile (\<lambda>c. hex_digit c \<noteq> None) r
      in if digits = [] then NaN
         else Num (sign * int (foldl (\<lambda>v c. 16 * v + the (hex_digit c)) 0 digits)))"




definition hexToBytes :: "js_string \<Rightarrow> js_value list" where
  "hexToBytes hex =
     (let hex = filter (\<lambda>c. \<not> is_space c) hex;
          hex = (if length hex mod 2 \<noteq> 0 then 0x30 # hex else hex)
      in map (\<lambda>j. parseInt16 (take 2 (drop (2 * j) hex))) [0..<(length hex + 1) div 2])"






definition isValidHex :: "js_string \<Rightarrow> bool" where
  "isValidHex input =
     (let stripped = filter (\<lambda>c. \<not> is_space c) input
      in stripped \<noteq> [] \<and> (\<forall>c \<in> set stripped. hex_digit c \<noteq> None))"

subsection \<open>cbcMode.ts\<close>

definition padPKCS7_js :: "js_value list \<Rightarrow> nat \<Rightarrow> js_value list" where
  "padPKCS7_js data blockSize =
     (let paddingLength = blockSize - (length data mod blockSize)
      in fold (\<lambda>i padded. padded @ [Num (int paddingLength)]) [0..<paddingLength] data)"


record cbc_result_js =
  cj_iv :: "js_value list"
  cj_ciphertext :: "js_value list"

function encryptCBC_loop_js ::
  "js_value list \<Rightarrow> js_value list \<Rightarrow> nat \<Rightarrow> js_value list \<Rightarrow> js_value list
     \<Rightarrow> js_error + js_value list" where
  "encryptCBC_loop_js paddedPlaintext key i previousBlock ciphertext =
     (if i < length paddedPlaintext then
        (let block = take BLOCK_SIZE_BYTES (drop i paddedPlaintext) in
         case xorBytes_js block previousBlock of
           Inl e \<Rightarrow> Inl e
         | Inr xoredBlock \<Rightarrow>
             (case aesEncryptBlock_js xoredBlock key of
                Inl e \<Rightarrow> Inl e
              | Inr encryptedBlock \<Rightarrow>
                  encryptCBC_loop_js paddedPlaintext key (i + BLOCK_SIZE_BYTES) encryptedBlock
                    (ciphertext @ encryptedBlock)))
      else Inr ciphertext)"
  by pat_completeness auto
termination
  by (relation "measure (\<lambda>(p, k, i, pb, c). length p - i)") (auto simp: BLOCK_SIZE_BYTES_def)

definition encryptCBC_js ::
  "(nat \<Rightarrow> byte) \<Rightarrow> js_value list \<Rightarrow> js_value list \<Rightarrow> js_value list option
     \<Rightarrow> js_error + cbc_result_js" where
  "encryptCBC_js rnd plaintext key iv_opt =
     (let initVector = (case iv_opt of Some v \<Rightarrow> v
                        | None \<Rightarrow> generateRandomBytes_js rnd BLOCK_SIZE_BYTES) in
      if length initVector \<noteq> BLOCK_SIZE_BYTES then Inl (JsInvalidIVLength (length initVector))
      else
        let paddedPlaintext = padPKCS7_js plaintext BLOCK_SIZE_BYTES in
        case encryptCBC_loop_js paddedPlaintext key 0 initVector [] of
          Inl e \<Rightarrow> Inl e
        | Inr c \<Rightarrow> Inr \<lparr>cj_iv = initVector, cj_ciphertext = c\<rparr>)"

function decryptCBC_loop_js ::
  "js_value list \<Rightarrow> js_value list \<Rightarrow> nat \<Rightarrow> js_value list \<Rightarrow> js_value list
     \<Rightarrow> js_error + js_value list" where
  "decryptCBC_loop_js ciphertext key i previousBlock plaintext =
     (if i < length ciphertext then
        (let block = take BLOCK_SIZE_BYTES (drop i ciphertext) in
         case aesDecryptBlock_js block key of
           Inl e \<Rightarrow> Inl e
         | Inr decryptedBlock \<Rightarrow>
             (case xorBytes_js decryptedBlock previousBlock of
                Inl e \<Rightarrow> Inl e
              | Inr xoredBlock \<Rightarrow>
                  decryptCBC_loop_js ciphertext key (i + BLOCK_SIZE_BYTES) block
                    (plaintext @ xoredBlock)))
      else Inr plaintext)"
  by pat_completeness auto
termination
  by (relation "measure (\<lambda>(c, k, i, pb, p). length c - i)") (auto simp: BLOCK_SIZE_BYTES_def)


record encryption_block_js =
  ej_index :: nat
  ej_plainBlock :: "js_value list"
  ej_xorWithPrevious :: "js_value list"
  ej_encrypted :: "js_value list"

record encryption_steps_js =
  ej_iv :: "js_value list"
  ej_plaintext :: "js_value list"
  ej_paddedPlaintext :: "js_value list"
  ej_blocks :: "encryption_block_js list"
  ej_ciphertext :: "js_value list"

record decryption_block_js =
  dj_index :: nat
  dj_cipherBlock :: "js_value list"
  dj_decrypted :: "js_value list"
  dj_xorWithPrevious :: "js_value list"

record decryption_steps_js =
  dj_iv :: "js_value list"
  dj_ciphertext :: "js_value list"
  dj_blocks :: "decryption_block_js list"
  dj_paddedPlaintext :: "js_value list"
  dj_plaintext :: "js_value list"

function encryptCBCWithSteps_loop_js ::
  "js_value list \<Rightarrow> nat \<Rightarrow> js_value list \<Rightarrow> encryption_steps_js
     \<Rightarrow> js_error + encryption_steps_js" where
  "encryptCBCWithSteps_loop_js key i previousBlock result =
     (if i < length (ej_paddedPlaintext result) then
        (let plainBlock = take BLOCK_SIZE_BYTES (drop i (ej_paddedPlaintext result)) in
         case xorBytes_js plainBlock previousBlock of
           Inl e \<Rightarrow> Inl e
         | Inr xoredBlock \<Rightarrow>
             (case aesEncryptBlock_js xoredBlock key of
                Inl e \<Rightarrow> Inl e
              | Inr encryptedBlock \<Rightarrow>
                  encryptCBCWithSteps_loop_js key (i + BLOCK_SIZE_BYTES) encryptedBlock
                    (result\<lparr>ej_blocks := ej_blocks result @
                               [\<lparr>ej_index = i div BLOCK_SIZE_BYTES, ej_plainBlock = plainBlock,
                                 ej_xorWithPrevious = xoredBlock,
                                 ej_encrypted = encryptedBlock\<rparr>],
                            ej_ciphertext := ej_ciphertext result @ encryptedBlock\<rparr>)))
      else Inr result)"
  by pat_completeness auto
termination
  by (relation "measure (\<lambda>(k, i, pb, r). length (ej_paddedPlaintext r) - i)")
    (auto simp: BLOCK_SIZE_BYTES_def)


function decryptCBCWithSteps_loop_js ::
  "js_value list \<Rightarrow> nat \<Rightarrow> js_value list \<Rightarrow> decryption_steps_js
     \<Rightarrow> js_error + decryption_steps_js" where
  "decryptCBCWithSteps_loop_js key i previousBlock result =
     (if i < length (dj_ciphertext result) then
        (let cipherBlock = take BLOCK_SIZE_BYTES (drop i (dj_ciphertext result)) in
         case aesDecryptBlock_js cipherBlock key of
           Inl e \<Rightarrow> Inl e
         | Inr decryptedBlock \<Rightarrow>
             (case xorBytes_js decryptedBlock previousBlock of
                Inl e \<Rightarrow> Inl e
              | Inr xoredBlock \<Rightarrow>
                  decryptCBCWithSteps_loop_js key (i + BLOCK_SIZE_BYTES) cipherBlock
                    (result\<lparr>dj_blocks := dj_blocks result @
                               [\<lparr>dj_index = i div BLOCK_SIZE_BYTES, dj_cipherBlock = cipherBlock,
                                 dj_decrypted = decryptedBlock,
                                 dj_xorWithPrevious = xoredBlock\<rparr>],
                            dj_paddedPlaintext := dj_paddedPlaintext result @ xoredBlock\<rparr>)))
      else Inr result)"
  by pat_completeness auto
termination
  by (relation "measure (\<lambda>(k, i, pb, r). length (dj_ciphertext r) - i)")
    (auto simp: BLOCK_SIZE_BYTES_def)


subsection \<open>Text interface (index.ts)\<close>





subsection \<open>Bytes as JavaScript values\<close>

text \<open>
  The errors of the byte model read as errors of the model on JavaScript values: the
  same message with the same numbers.
\<close>

fun of_error :: "error \<Rightarrow> js_error" where
  "of_error (InvalidKeyLength n) = JsInvalidKeyLength n"
| "of_error (InvalidIVLength n) = JsInvalidIVLength n"
| "of_error (InvalidBlockLength n) = JsInvalidBlockLength n"
| "of_error (InvalidCiphertextLength n) = JsInvalidCiphertextLength n"
| "of_error (LengthMismatch m n) = JsLengthMismatch m n"
| "of_error EmptyInput = JsEmptyInput"
| "of_error (InvalidPadding (BadLength n)) = JsInvalidPaddingLength (int n)"
| "of_error (InvalidPadding (Mismatch n found i)) = JsInvalidPaddingByte (int n) (Num (int found)) i"
| "of_error DecryptionFailedInvalidPadding = JsDecryptionFailedInvalidPadding"
| "of_error (DecryptionFailed e) = JsDecryptionFailed (of_error e)"

abbreviation of_bytes :: "byte list \<Rightarrow> js_value list" where
  "of_bytes \<equiv> map of_byte"

abbreviation of_state :: "state \<Rightarrow> js_value list list" where
  "of_state \<equiv> map (map of_byte)"

text \<open>
  \<open>is_num v\<close>: the value is a number other than \<open>NaN\<close>. \<open>to_byte\<close> reads a value
  back as a byte.
\<close>

definition is_num :: "js_value \<Rightarrow> bool" where
  "is_num v = (case v of Num n \<Rightarrow> True | NaN \<Rightarrow> False | Undefined \<Rightarrow> False)"


section \<open>The FIPS-197 example vector\<close>

text \<open>
  The AES-128 example of FIPS-197, Appendix C.1: key, plaintext block and ciphertext
  block.
\<close>

definition fips_key :: "byte list" where
  "fips_key = [0x00, 0x01, 0x02, 0x03, 0x04, 0x05, 0x06, 0x07, 0x08, 0x09, 0x0a, 0x0b, 0x0c, 0x0d, 0x0e, 0x0f]"

definition fips_plain :: "byte list" where
  "fips_plain = [0x00, 0x11, 0x22, 0x33, 0x44, 0x55, 0x66, 0x77, 0x88, 0x99, 0xaa, 0xbb, 0xcc, 0xdd, 0xee, 0xff]"

definition fips_cipher :: "byte list" where
  "fips_cipher = [0x69, 0xc4, 0xe0, 0xd8, 0x6a, 0x7b, 0x04, 0x30, 0xd8, 0xcd, 0xb7, 0x80, 0x70, 0xb4, 0xc5, 0x5a]"

section \<open>Invariants\<close>

text \<open>
  \<open>words_ok n w\<close>: the word array of the key schedule holds \<open>n\<close> words of four bytes.
  \<open>state_ok s\<close>: the state is a 4x4 matrix.
\<close>

definition words_ok :: "nat \<Rightarrow> byte list list \<Rightarrow> bool" where
  "words_ok n w \<longleftrightarrow> length w = n \<and> (\<forall>x \<in> set w. length x = 4)"

definition state_ok :: "state \<Rightarrow> bool" where
  "state_ok s \<longleftrightarrow> length s = 4 \<and> (\<forall>r \<in> set s. length r = 4)"

section \<open>The key schedule produces round keys of 16 bytes\<close>

lemma upt_0_4: "[0..<4] = [0, 1, 2, 3]" by (simp add: upt_rec)

lemma fold_invariant:
  assumes "P s" and "\<And>x s. x \<in> set xs \<Longrightarrow> P s \<Longrightarrow> P (f x s)"
  shows "P (fold f xs s)"
  using assms by (induction xs arbitrary: s) auto

lemma words_ok_update:
  "words_ok n w \<Longrightarrow> length v = 4 \<Longrightarrow> words_ok n (w[i := v])"
  unfolding words_ok_def by (auto dest: subsetD [OF set_update_subset_insert])

lemma words_ok_nth: "words_ok n w \<Longrightarrow> i < n \<Longrightarrow> length (w ! i) = 4"
  unfolding words_ok_def by auto

lemma words_ok_expand:
  assumes "words_ok n w" and "0 < i" and "i < n"
  shows "words_ok n (expand_word Nk w i)"
proof -
  have "length (w ! (i - 1)) = 4"
    using assms by (intro words_ok_nth [of n]) auto
  then show ?thesis
    using assms(1) by (auto simp: expand_word_def Let_def intro!: words_ok_update)
qed

lemma words_ok_schedule:
  assumes "0 < Nk"
  shows "words_ok n (fold (\<lambda>i w. expand_word Nk w i) [Nk..<n]
           (fold (\<lambda>i w. w[i := [key ! (4 * i), key ! (4 * i + 1), key ! (4 * i + 2), key ! (4 * i + 3)]])
              [0..<Nk] (replicate n (replicate 4 0))))"
proof (rule fold_invariant)
  show "words_ok n (fold (\<lambda>i w. w[i := [key ! (4 * i), key ! (4 * i + 1), key ! (4 * i + 2), key ! (4 * i + 3)]])
              [0..<Nk] (replicate n (replicate 4 0)))"
  proof (rule fold_invariant)
    show "words_ok n (replicate n (replicate 4 0))"
      by (simp add: words_ok_def)
  next
    fix i w assume "words_ok n w"
    then show "words_ok n (w[i := [key ! (4 * i), key ! (4 * i + 1), key ! (4 * i + 2), key ! (4 * i + 3)]])"
      by (rule words_ok_update) simp
  qed
next
  fix i w assume "i \<in> set [Nk..<n]" and "words_ok n w"
  then show "words_ok n (expand_word Nk w i)"
    using assms by (intro words_ok_expand) auto
qed

lemma round_key_length:
  assumes "words_ok n w" and "i * 4 + 3 < n"
  shows "length (concat (map (\<lambda>j. w ! (i * 4 + j)) [0..<4])) = 16"
  using assms by (simp add: upt_0_4 words_ok_nth [of n])

lemma keyExpansion_valid:
  assumes "length key = 16 \<or> length key = 24 \<or> length key = 32"
  shows "\<exists>rks. keyExpansion key = Inr rks
           \<and> length rks = (if length key = 16 then 11 else if length key = 24 then 13 else 15)
           \<and> (\<forall>rk \<in> set rks. length rk = 16)"
proof -
  define Nr where "Nr = (if length key = 16 then 10 else if length key = 24 then 12 else (14::nat))"
  define w where "w = fold (\<lambda>i w. expand_word (length key div 4) w i) [length key div 4..<4 * (Nr + 1)]
           (fold (\<lambda>i w. w[i := [key ! (4 * i), key ! (4 * i + 1), key ! (4 * i + 2), key ! (4 * i + 3)]])
              [0..<length key div 4] (replicate (4 * (Nr + 1)) (replicate 4 0)))"
  have ok: "words_ok (4 * (Nr + 1)) w"
    unfolding w_def using assms by (intro words_ok_schedule) auto
  have ke: "keyExpansion key = Inr (map (\<lambda>i. concat (map (\<lambda>j. w ! (i * 4 + j)) [0..<4])) [0..<Nr + 1])"
    using assms
    by (auto simp: keyExpansion_def Let_def w_def Nr_def NUM_ROUNDS_def KEY_SIZES_AES_128_def
        KEY_SIZES_AES_192_def KEY_SIZES_AES_256_def)
  have "\<forall>rk \<in> set (map (\<lambda>i. concat (map (\<lambda>j. w ! (i * 4 + j)) [0..<4])) [0..<Nr + 1]). length rk = 16"
  proof
    fix rk assume "rk \<in> set (map (\<lambda>i. concat (map (\<lambda>j. w ! (i * 4 + j)) [0..<4])) [0..<Nr + 1])"
    then obtain i where i: "i < Nr + 1" and rk: "rk = concat (map (\<lambda>j. w ! (i * 4 + j)) [0..<4])"
      unfolding set_map by (auto simp del: upt_Suc)
    show "length rk = 16"
      unfolding rk using ok i by (intro round_key_length [of "4 * (Nr + 1)"]) auto
  qed
  moreover have "length (map (\<lambda>i. concat (map (\<lambda>j. w ! (i * 4 + j)) [0..<4])) [0..<Nr + 1]) =
      (if length key = 16 then 11 else if length key = 24 then 13 else 15)"
    by (simp add: Nr_def)
  ultimately show ?thesis using ke by blast
qed

lemma keyExpansion_invalid:
  "length key \<noteq> 16 \<Longrightarrow> length key \<noteq> 24 \<Longrightarrow> length key \<noteq> 32 \<Longrightarrow>
     keyExpansion key = Inl (InvalidKeyLength (length key))"
  by (simp add: keyExpansion_def)

section \<open>The round primitives and their inverses\<close>

lemma upt_0_16: "[0..<16] = [0, 1, 2, 3, 4, 5, 6, 7, 8, 9, 10, 11, 12, 13, 14, 15]"
  by (simp add: upt_rec)

lemma list4_obtain:
  assumes "length xs = 4"
  obtains a b c d where "xs = [a, b, c, d]"
proof -
  from assms have "\<exists>a b c d. xs = [a, b, c, d]"
    by (simp add: numeral_eq_Suc length_Suc_conv) blast
  then show thesis using that by blast
qed

lemma list16_obtain:
  assumes "length xs = 16"
  obtains a0 a1 a2 a3 b0 b1 b2 b3 c0 c1 c2 c3 d0 d1 d2 d3 where
    "xs = [a0, a1, a2, a3, b0, b1, b2, b3, c0, c1, c2, c3, d0, d1, d2, d3]"
proof -
  have l: "length (take 4 xs) = 4" "length (take 4 (drop 4 xs)) = 4"
    "length (take 4 (drop 8 xs)) = 4" "length (drop 12 xs) = 4"
    using assms by simp_all
  have "xs = take 4 xs @ drop 4 xs" by simp
  also have "drop 4 xs = take 4 (drop 4 xs) @ drop 8 xs" 
    using append_take_drop_id [of 4 "drop 4 xs"] by simp
  also have "drop 8 xs = take 4 (drop 8 xs) @ drop 12 xs"
    using append_take_drop_id [of 4 "drop 8 xs"] by simp
  finally have e: "xs = take 4 xs @ take 4 (drop 4 xs) @ take 4 (drop 8 xs) @ drop 12 xs" .
  from l(1) obtain a0 a1 a2 a3 where a: "take 4 xs = [a0, a1, a2, a3]" by (rule list4_obtain)
  from l(2) obtain b0 b1 b2 b3 where b: "take 4 (drop 4 xs) = [b0, b1, b2, b3]" by (rule list4_obtain)
  from l(3) obtain c0 c1 c2 c3 where c: "take 4 (drop 8 xs) = [c0, c1, c2, c3]" by (rule list4_obtain)
  from l(4) obtain d0 d1 d2 d3 where d: "drop 12 xs = [d0, d1, d2, d3]" by (rule list4_obtain)
  have "xs = [a0, a1, a2, a3, b0, b1, b2, b3, c0, c1, c2, c3, d0, d1, d2, d3]"
    using e unfolding a b c d by simp
  then show thesis by (rule that)
qed

lemma state_obtain:
  assumes "state_ok s"
  obtains a0 a1 a2 a3 b0 b1 b2 b3 c0 c1 c2 c3 d0 d1 d2 d3 where
    "s = [[a0, a1, a2, a3], [b0, b1, b2, b3], [c0, c1, c2, c3], [d0, d1, d2, d3]]"
proof -
  from assms have "length s = 4"
    by (simp add: state_ok_def)
  then obtain r0 r1 r2 r3 where s: "s = [r0, r1, r2, r3]"
    by (rule list4_obtain)
  with assms have l: "length r0 = 4" "length r1 = 4" "length r2 = 4" "length r3 = 4"
    by (simp_all add: state_ok_def)
  from l(1) obtain a0 a1 a2 a3 where a: "r0 = [a0, a1, a2, a3]" by (rule list4_obtain)
  from l(2) obtain b0 b1 b2 b3 where b: "r1 = [b0, b1, b2, b3]" by (rule list4_obtain)
  from l(3) obtain c0 c1 c2 c3 where c: "r2 = [c0, c1, c2, c3]" by (rule list4_obtain)
  from l(4) obtain d0 d1 d2 d3 where d: "r3 = [d0, d1, d2, d3]" by (rule list4_obtain)
  show thesis
    by (rule that [of a0 a1 a2 a3 b0 b1 b2 b3 c0 c1 c2 c3 d0 d1 d2 d3]) (simp add: s a b c d)
qed

lemma gfMultiply_loop_numeral:
  "gfMultiply_loop (numeral k) a b p =
     gfMultiply_loop (pred_numeral k) (xtime a) (drop_bit 1 b) (if bit b 0 then p XOR a else p)"
  by (simp add: numeral_eq_Suc)

lemma gfMultiply_2: "gfMultiply a 2 = xtime a"
  by (simp add: gfMultiply_def gfMultiply_loop_numeral)
lemma gfMultiply_3: "gfMultiply a 3 = xtime a XOR a"
  by (simp add: gfMultiply_def gfMultiply_loop_numeral xor.commute)
lemma gfMultiply_9: "gfMultiply a 9 = xtime (xtime (xtime a)) XOR a"
  by (simp add: gfMultiply_def gfMultiply_loop_numeral xor.commute)
lemma gfMultiply_11: "gfMultiply a 11 = xtime (xtime (xtime a)) XOR xtime a XOR a"
  by (simp add: gfMultiply_def gfMultiply_loop_numeral xor.assoc xor.commute xor.left_commute)
lemma gfMultiply_13: "gfMultiply a 13 = xtime (xtime (xtime a)) XOR xtime (xtime a) XOR a"
  by (simp add: gfMultiply_def gfMultiply_loop_numeral xor.assoc xor.commute xor.left_commute)
lemma gfMultiply_14: "gfMultiply a 14 = xtime (xtime (xtime a)) XOR xtime (xtime a) XOR xtime a"
  by (simp add: gfMultiply_def gfMultiply_loop_numeral xor.assoc xor.commute xor.left_commute)

lemma unat_byte_less: "unat (b :: byte) < 256"
  using unsigned_less [of b] by simp

lemma all_bytes_nth: "all_bytes ! unat b = b"
  using unat_byte_less [of b] by (simp add: all_bytes_def)

lemma table_nth: "map f all_bytes ! unat b = f b"
  using unat_byte_less [of b] by (simp add: all_bytes_def)

lemma MULT_2_nth: "MULT_2 ! unat b = xtime b"
  by (simp add: MULT_2_def table_nth gfMultiply_2)
lemma MULT_3_nth: "MULT_3 ! unat b = xtime b XOR b"
  by (simp add: MULT_3_def table_nth gfMultiply_3)
lemma MULT_9_nth: "MULT_9 ! unat b = xtime (xtime (xtime b)) XOR b"
  by (simp add: MULT_9_def table_nth gfMultiply_9)
lemma MULT_11_nth: "MULT_11 ! unat b = xtime (xtime (xtime b)) XOR xtime b XOR b"
  by (simp add: MULT_11_def table_nth gfMultiply_11)
lemma MULT_13_nth: "MULT_13 ! unat b = xtime (xtime (xtime b)) XOR xtime (xtime b) XOR b"
  by (simp add: MULT_13_def table_nth gfMultiply_13)
lemma MULT_14_nth: "MULT_14 ! unat b = xtime (xtime (xtime b)) XOR xtime (xtime b) XOR xtime b"
  by (simp add: MULT_14_def table_nth gfMultiply_14)

lemmas MULT_nth = MULT_2_nth MULT_3_nth MULT_9_nth MULT_11_nth MULT_13_nth MULT_14_nth

lemma xtime_xor: "xtime (a XOR b) = xtime a XOR xtime b"
  by (simp add: xtime_def bit_xor_iff push_bit_xor xor.assoc xor.commute xor.left_commute)

lemma xor_cancel_left: "a XOR (a XOR b) = (b :: byte)"
  by (simp add: xor.assoc [symmetric])

lemmas xor_norm = xtime_xor xor.assoc xor.commute xor.left_commute xor_cancel_left

lemma inv_mix_column:
  fixes a b c d :: byte
  shows "MULT_14 ! unat (MULT_2 ! unat a XOR MULT_3 ! unat b XOR c XOR d)
          XOR MULT_11 ! unat (a XOR MULT_2 ! unat b XOR MULT_3 ! unat c XOR d)
          XOR MULT_13 ! unat (a XOR b XOR MULT_2 ! unat c XOR MULT_3 ! unat d)
          XOR MULT_9 ! unat (MULT_3 ! unat a XOR b XOR c XOR MULT_2 ! unat d) = a"
    and "MULT_9 ! unat (MULT_2 ! unat a XOR MULT_3 ! unat b XOR c XOR d)
          XOR MULT_14 ! unat (a XOR MULT_2 ! unat b XOR MULT_3 ! unat c XOR d)
          XOR MULT_11 ! unat (a XOR b XOR MULT_2 ! unat c XOR MULT_3 ! unat d)
          XOR MULT_13 ! unat (MULT_3 ! unat a XOR b XOR c XOR MULT_2 ! unat d) = b"
    and "MULT_13 ! unat (MULT_2 ! unat a XOR MULT_3 ! unat b XOR c XOR d)
          XOR MULT_9 ! unat (a XOR MULT_2 ! unat b XOR MULT_3 ! unat c XOR d)
          XOR MULT_14 ! unat (a XOR b XOR MULT_2 ! unat c XOR MULT_3 ! unat d)
          XOR MULT_11 ! unat (MULT_3 ! unat a XOR b XOR c XOR MULT_2 ! unat d) = c"
    and "MULT_11 ! unat (MULT_2 ! unat a XOR MULT_3 ! unat b XOR c XOR d)
          XOR MULT_13 ! unat (a XOR MULT_2 ! unat b XOR MULT_3 ! unat c XOR d)
          XOR MULT_9 ! unat (a XOR b XOR MULT_2 ! unat c XOR MULT_3 ! unat d)
          XOR MULT_14 ! unat (MULT_3 ! unat a XOR b XOR c XOR MULT_2 ! unat d) = d"
  by (simp_all add: MULT_nth xor_norm)

lemma inv_table: "map (\<lambda>x. INV_SBOX ! unat x) SBOX = all_bytes"
  by code_simp

lemma SBOX_length: "length SBOX = 256"
  by (simp add: SBOX_def)

lemma INV_SBOX_SBOX: "INV_SBOX ! unat (SBOX ! unat b) = b"
proof -
  have "unat b < length SBOX"
    using unat_byte_less [of b] by (simp add: SBOX_length)
  then have "map (\<lambda>x. INV_SBOX ! unat x) SBOX ! unat b = INV_SBOX ! unat (SBOX ! unat b)"
    by (rule nth_map)
  then show ?thesis
    by (simp add: inv_table all_bytes_nth)
qed

lemma state_ok_simps:
  "state_ok (subBytes s)" "state_ok (invSubBytes s)" "state_ok (shiftRows s)"
  "state_ok (invShiftRows s)" "state_ok (mixColumns s)" "state_ok (invMixColumns s)"
  "state_ok (addRoundKey s k)"
  by (simp_all add: state_ok_def subBytes_def invSubBytes_def shiftRows_def invShiftRows_def
      mixColumns_def invMixColumns_def addRoundKey_def upt_0_4)

lemma invSubBytes_subBytes: "state_ok s \<Longrightarrow> invSubBytes (subBytes s) = s"
  by (erule state_obtain) (simp add: subBytes_def invSubBytes_def upt_0_4 INV_SBOX_SBOX)

lemma invShiftRows_shiftRows: "state_ok s \<Longrightarrow> invShiftRows (shiftRows s) = s"
  by (erule state_obtain) (simp add: shiftRows_def invShiftRows_def)

lemma invMixColumns_mixColumns: "state_ok s \<Longrightarrow> invMixColumns (mixColumns s) = s"
  by (erule state_obtain) (simp add: mixColumns_def invMixColumns_def upt_0_4 inv_mix_column)

lemma addRoundKey_addRoundKey: "state_ok s \<Longrightarrow> addRoundKey (addRoundKey s k) k = s"
  by (erule state_obtain) (simp add: addRoundKey_def upt_0_4 xor.assoc)

lemma replicate_4: "replicate 4 x = [x, x, x, x]"
  by (simp add: numeral_eq_Suc)

lemma replicate_16: "replicate 16 x = [x, x, x, x, x, x, x, x, x, x, x, x, x, x, x, x]"
  by (simp add: numeral_eq_Suc)

lemma bytesToState_explicit:
  "bytesToState [a0, a1, a2, a3, b0, b1, b2, b3, c0, c1, c2, c3, d0, d1, d2, d3] =
     Inr [[a0, b0, c0, d0], [a1, b1, c1, d1], [a2, b2, c2, d2], [a3, b3, c3, d3]]"
  by (simp add: bytesToState_def BLOCK_SIZE_BYTES_def upt_0_16 replicate_4)

lemma stateToBytes_explicit:
  "stateToBytes [[a0, b0, c0, d0], [a1, b1, c1, d1], [a2, b2, c2, d2], [a3, b3, c3, d3]] =
     [a0, a1, a2, a3, b0, b1, b2, b3, c0, c1, c2, c3, d0, d1, d2, d3]"
  by (simp add: stateToBytes_def BLOCK_SIZE_BYTES_def upt_0_4 replicate_16)

lemma bytesToState_length:
  "length b \<noteq> 16 \<Longrightarrow> bytesToState b = Inl (InvalidBlockLength (length b))"
  by (simp add: bytesToState_def BLOCK_SIZE_BYTES_def)

lemma bytesToState_stateToBytes:
  assumes "state_ok s"
  shows "bytesToState (stateToBytes s) = Inr s"
  using assms by (elim state_obtain) (simp add: stateToBytes_explicit bytesToState_explicit)

lemma stateToBytes_bytesToState:
  assumes "length b = 16"
  shows "\<exists>s. bytesToState b = Inr s \<and> state_ok s \<and> stateToBytes s = b"
  using assms
  by (elim list16_obtain) (simp add: stateToBytes_explicit bytesToState_explicit state_ok_def)

lemma stateToBytes_length: "state_ok s \<Longrightarrow> length (stateToBytes s) = 16"
  by (elim state_obtain) (simp add: stateToBytes_explicit)

section \<open>One block: decryption inverts encryption\<close>

lemma state_ok_encryption_round: "state_ok (aesEncryptionRound s k final)"
  by (simp add: aesEncryptionRound_def Let_def state_ok_simps)

lemma state_ok_encryption_rounds:
  "state_ok s \<Longrightarrow> state_ok (fold (\<lambda>round state. aesEncryptionRound state (rks ! round) False) rs s)"
  by (rule fold_invariant) (simp_all add: state_ok_encryption_round)

lemma decryption_round_inverse:
  assumes "state_ok s"
  shows "aesDecryptionRound (shiftRows (subBytes (aesEncryptionRound s k False))) k False =
           shiftRows (subBytes s)"
  by (simp add: aesDecryptionRound_def aesEncryptionRound_def invShiftRows_shiftRows
      invSubBytes_subBytes addRoundKey_addRoundKey invMixColumns_mixColumns state_ok_simps)

lemma decryption_rounds_inverse:
  assumes "state_ok s"
  shows "fold (\<lambda>round state. aesDecryptionRound state (rks ! round) False) (rev rs)
           (shiftRows (subBytes (fold (\<lambda>round state. aesEncryptionRound state (rks ! round) False) rs s))) =
         shiftRows (subBytes s)"
  using assms
proof (induction rs arbitrary: s)
  case Nil
  then show ?case by simp
next
  case (Cons r rs)
  have "state_ok (aesEncryptionRound s (rks ! r) False)"
    by (rule state_ok_encryption_round)
  from Cons.IH [OF this] show ?case
    by (simp add: decryption_round_inverse [OF Cons.prems])
qed

lemma final_round_inverse:
  assumes "state_ok s"
  shows "addRoundKey (aesEncryptionRound s k True) k = shiftRows (subBytes s)"
  by (simp add: aesEncryptionRound_def addRoundKey_addRoundKey state_ok_simps)

lemma first_round_inverse:
  assumes "state_ok s"
  shows "aesDecryptionRound (shiftRows (subBytes (addRoundKey s k))) k True = s"
  using assms
  by (simp add: aesDecryptionRound_def invShiftRows_shiftRows invSubBytes_subBytes
      addRoundKey_addRoundKey state_ok_simps)

lemma block_roundtrip:
  assumes b: "length b = 16" and ke: "keyExpansion k = Inr rks"
  shows "\<exists>c. aesEncryptBlock b k = Inr c \<and> length c = 16 \<and> aesDecryptBlock c k = Inr b"
proof -
  from stateToBytes_bytesToState [OF b] obtain s0 where
    s0: "bytesToState b = Inr s0" "state_ok s0" "stateToBytes s0 = b" by blast
  define n where "n = length rks - 1"
  define s1 where "s1 = addRoundKey s0 (rks ! 0)"
  define s2 where "s2 = fold (\<lambda>round state. aesEncryptionRound state (rks ! round) False) [1..<n] s1"
  define s3 where "s3 = aesEncryptionRound s2 (rks ! n) True"
  have ok1: "state_ok s1" by (simp add: s1_def state_ok_simps)
  have ok2: "state_ok s2" unfolding s2_def by (rule state_ok_encryption_rounds [OF ok1])
  have ok3: "state_ok s3" unfolding s3_def by (rule state_ok_encryption_round)
  have enc: "aesEncryptBlock b k = Inr (stateToBytes s3)"
    by (simp add: aesEncryptBlock_def ke s0 Let_def n_def s1_def s2_def s3_def)
  have dec: "aesDecryptBlock (stateToBytes s3) k =
      Inr (stateToBytes (aesDecryptionRound
        (fold (\<lambda>round state. aesDecryptionRound state (rks ! round) False) (rev [1..<n])
           (addRoundKey s3 (rks ! n))) (rks ! 0) True))"
    by (simp add: aesDecryptBlock_def ke bytesToState_stateToBytes [OF ok3] Let_def n_def)
  have "addRoundKey s3 (rks ! n) = shiftRows (subBytes s2)"
    unfolding s3_def by (rule final_round_inverse [OF ok2])
  moreover have "fold (\<lambda>round state. aesDecryptionRound state (rks ! round) False) (rev [1..<n])
      (shiftRows (subBytes s2)) = shiftRows (subBytes s1)"
    unfolding s2_def by (rule decryption_rounds_inverse [OF ok1])
  moreover have "aesDecryptionRound (shiftRows (subBytes s1)) (rks ! 0) True = s0"
    unfolding s1_def by (rule first_round_inverse [OF s0(2)])
  ultimately have "aesDecryptBlock (stateToBytes s3) k = Inr b"
    unfolding dec by (simp only: s0)
  with enc stateToBytes_length [OF ok3] show ?thesis by simp
qed

section \<open>PKCS#7 padding\<close>

lemma fold_push: "fold (\<lambda>i padded. padded @ [v]) xs data = data @ replicate (length xs) v"
  by (induction xs arbitrary: data) (simp_all add: replicate_app_Cons_same)

lemma padPKCS7_eq:
  "padPKCS7 data bs = data @ replicate (bs - length data mod bs) (of_nat (bs - length data mod bs))"
  by (simp add: padPKCS7_def Let_def fold_push)

lemma unat_pad_byte: "n \<le> 16 \<Longrightarrow> unat (of_nat n :: byte) = n"
  by (simp add: unsigned_of_nat take_bit_nat_eq_self)

lemma pad_arith: "(n + 16 - n mod 16) mod 16 = (0::nat)"
  by presburger

lemma padPKCS7_length: "length (padPKCS7 data 16) mod 16 = 0"
  by (simp add: padPKCS7_eq pad_arith)

lemma set_drop_nth:
  "(\<forall>b \<in> set (drop k xs). P b) \<longleftrightarrow> (\<forall>i. k \<le> i \<and> i < length xs \<longrightarrow> P (xs ! i))"
proof
  assume l: "\<forall>b \<in> set (drop k xs). P b"
  show "\<forall>i. k \<le> i \<and> i < length xs \<longrightarrow> P (xs ! i)"
  proof (intro allI impI)
    fix i assume i: "k \<le> i \<and> i < length xs"
    then have "i - k < length (drop k xs)" by auto
    then have "drop k xs ! (i - k) \<in> set (drop k xs)" by (rule nth_mem)
    moreover have "drop k xs ! (i - k) = xs ! i" using i by simp
    ultimately show "P (xs ! i)" using l by auto
  qed
next
  assume r: "\<forall>i. k \<le> i \<and> i < length xs \<longrightarrow> P (xs ! i)"
  show "\<forall>b \<in> set (drop k xs). P b"
  proof
    fix b assume "b \<in> set (drop k xs)"
    then obtain j where j: "j < length (drop k xs)" and b: "b = drop k xs ! j"
      by (auto simp: in_set_conv_nth)
    from j have "k + j < length xs" by simp
    moreover have "b = xs ! (k + j)" using b j by simp
    ultimately show "P b" using r by simp
  qed
qed

lemma unpad_check_iff:
  "find (\<lambda>i. unat (data ! i) \<noteq> n) [length data - n..<length data] = None \<longleftrightarrow>
     (\<forall>b \<in> set (drop (length data - n) data). unat b = n)"
  by (auto simp: find_None_iff set_drop_nth)

lemma unpadPKCS7_empty: "unpadPKCS7 data = Inl EmptyInput \<longleftrightarrow> data = []"
  by (auto simp: unpadPKCS7_def Let_def split: option.splits)

lemma unpadPKCS7_nonempty:
  assumes "data \<noteq> []"
  defines "n \<equiv> unat (last data)"
  shows "(\<exists>d. unpadPKCS7 data = Inl (InvalidPadding d)) \<longleftrightarrow>
           (n = 0 \<or> n > 16 \<or> n > length data \<or> (\<exists>b \<in> set (drop (length data - n) data). unat b \<noteq> n))"
    and "\<not> (n = 0 \<or> n > 16 \<or> n > length data \<or> (\<exists>b \<in> set (drop (length data - n) data). unat b \<noteq> n))
           \<Longrightarrow> unpadPKCS7 data = Inr (take (length data - n) data)"
proof -
  have u: "unpadPKCS7 data =
      (if n = 0 \<or> 16 < n \<or> length data < n then Inl (InvalidPadding (BadLength n))
       else case find (\<lambda>i. unat (data ! i) \<noteq> n) [length data - n..<length data] of
              Some i \<Rightarrow> Inl (InvalidPadding (Mismatch n (unat (data ! i)) i))
            | None \<Rightarrow> Inr (take (length data - n) data))"
  proof -
    have n: "unat (data ! (length data - Suc 0)) = n"
      using assms(1) by (simp add: n_def last_conv_nth)
    show ?thesis
      using assms(1)
      by (simp add: unpadPKCS7_def Let_def BLOCK_SIZE_BYTES_def n cong: option.case_cong)
  qed
  have c: "(\<exists>b \<in> set (drop (length data - n) data). unat b \<noteq> n) \<longleftrightarrow>
      find (\<lambda>i. unat (data ! i) \<noteq> n) [length data - n..<length data] \<noteq> None"
    using unpad_check_iff [of data n] by simp
  show "(\<exists>d. unpadPKCS7 data = Inl (InvalidPadding d)) \<longleftrightarrow>
           (n = 0 \<or> n > 16 \<or> n > length data \<or> (\<exists>b \<in> set (drop (length data - n) data). unat b \<noteq> n))"
    unfolding u c
    by (cases "find (\<lambda>i. unat (data ! i) \<noteq> n) [length data - n..<length data]") auto
  show "unpadPKCS7 data = Inr (take (length data - n) data)"
    if "\<not> (n = 0 \<or> n > 16 \<or> n > length data \<or> (\<exists>b \<in> set (drop (length data - n) data). unat b \<noteq> n))"
    using that unfolding u c
    by (cases "find (\<lambda>i. unat (data ! i) \<noteq> n) [length data - n..<length data]") auto
qed

lemma unpad_pad: "unpadPKCS7 (padPKCS7 m 16) = Inr m"
proof -
  define n where "n = 16 - length m mod 16"
  define data where "data = padPKCS7 m 16"
  have n: "1 \<le> n" "n \<le> 16" by (simp_all add: n_def)
  have data: "data = m @ replicate n (of_nat n)"
    by (simp add: data_def padPKCS7_eq n_def)
  have ne: "data \<noteq> []" using n by (simp add: data)
  have l: "unat (last data) = n"
    using n by (simp add: data unat_pad_byte)
  have len: "length data - n = length m" by (simp add: data)
  have "\<not> (n = 0 \<or> n > 16 \<or> n > length data \<or> (\<exists>b \<in> set (drop (length data - n) data). unat b \<noteq> n))"
    unfolding len using n by (auto simp: data unat_pad_byte)
  then have "unpadPKCS7 data = Inr (take (length data - n) data)"
    using unpadPKCS7_nonempty(2) [OF ne] unfolding l by simp
  then show ?thesis
    unfolding len by (simp add: data data_def [symmetric])
qed

section \<open>CBC chaining\<close>

lemma xorBytes_mismatch:
  "length a \<noteq> length b \<Longrightarrow> xorBytes a b = Inl (LengthMismatch (length a) (length b))"
  by (simp add: xorBytes_def)

lemma xorBytes_inverse:
  assumes "length a = length b"
  shows "\<exists>x. xorBytes a b = Inr x \<and> length x = length a \<and> xorBytes x b = Inr a"
proof -
  define x where "x = map (\<lambda>i. a ! i XOR b ! i) [0..<length a]"
  have lx: "length x = length a" by (simp add: x_def)
  have "map (\<lambda>i. x ! i XOR b ! i) [0..<length x] = a"
    by (rule nth_equalityI) (simp_all add: x_def xor.assoc)
  then have "xorBytes x b = Inr a"
    using assms lx by (simp add: xorBytes_def)
  moreover have "xorBytes a b = Inr x"
    using assms by (simp add: xorBytes_def x_def)
  ultimately show ?thesis using lx by blast
qed

lemmas loop_simps = encryptCBC_loop.simps decryptCBC_loop.simps
  encryptCBCWithSteps_loop.simps decryptCBCWithSteps_loop.simps

declare loop_simps [simp del]

lemma encryptCBC_loop_done:
  "\<not> i < length p \<Longrightarrow> encryptCBC_loop p k i prev acc = Inr acc"
  by (simp add: encryptCBC_loop.simps [of p k i])

lemma decryptCBC_loop_done:
  "\<not> i < length c \<Longrightarrow> decryptCBC_loop c k i prev acc = Inr acc"
  by (simp add: decryptCBC_loop.simps [of c k i])

lemma encryptCBC_loop_step:
  "i < length p \<Longrightarrow> xorBytes (take 16 (drop i p)) prev = Inr x \<Longrightarrow>
     aesEncryptBlock x k = Inr e \<Longrightarrow>
     encryptCBC_loop p k i prev acc = encryptCBC_loop p k (i + 16) e (acc @ e)"
  by (simp add: encryptCBC_loop.simps [of p k i] BLOCK_SIZE_BYTES_def)

lemma decryptCBC_loop_step:
  "i < length c \<Longrightarrow> aesDecryptBlock (take 16 (drop i c)) k = Inr d \<Longrightarrow>
     xorBytes d prev = Inr x \<Longrightarrow>
     decryptCBC_loop c k i prev acc = decryptCBC_loop c k (i + 16) (take 16 (drop i c)) (acc @ x)"
  by (simp add: decryptCBC_loop.simps [of c k i] BLOCK_SIZE_BYTES_def)

lemma block_slice:
  assumes "i < length p" and "16 dvd (length p - i)"
  shows "length (take 16 (drop i p)) = 16" and "16 dvd (length p - (i + 16))"
    and "i + 16 \<le> length p"
proof -
  from assms obtain q where q: "length p - i = 16 * q" by (auto simp: dvd_def)
  with assms(1) have "0 < q" by (cases q) auto
  with q show "length (take 16 (drop i p)) = 16" by simp
  from q \<open>0 < q\<close> show "i + 16 \<le> length p" by simp
  have "length p - (i + 16) = 16 * (q - 1)" using q by (simp add: right_diff_distrib')
  then show "16 dvd (length p - (i + 16))" by simp
qed

lemma cbc_loops_roundtrip:
  shows "keyExpansion k = Inr rks \<Longrightarrow>
    16 dvd (length p - i) \<Longrightarrow> i \<le> length p \<Longrightarrow> length prev = 16 \<Longrightarrow>
    \<exists>c. encryptCBC_loop p k i prev acc = Inr c
      \<and> length c = length acc + (length p - i)
      \<and> take (length acc) c = acc
      \<and> (\<forall>pacc. decryptCBC_loop c k (length acc) prev pacc = Inr (pacc @ drop i p))"
proof (induction p k i prev acc rule: encryptCBC_loop.induct)
  case (1 p k i prev acc)
  note ke = "1.prems"(1)
  show ?case
  proof (cases "i < length p")
    case False
    with "1.prems" have "i = length p" by simp
    then show ?thesis
      by (simp add: encryptCBC_loop_done decryptCBC_loop_done)
  next
    case True
    define block where "block = take 16 (drop i p)"
    have bl: "length block = 16" and dv: "16 dvd (length p - (i + 16))" and le: "i + 16 \<le> length p"
      using block_slice [OF True "1.prems"(2)] by (simp_all add: block_def BLOCK_SIZE_BYTES_def)
    from xorBytes_inverse [of block prev] bl "1.prems"(4)
    obtain x where x: "xorBytes block prev = Inr x" "length x = 16" "xorBytes x prev = Inr block"
      by auto
    from block_roundtrip [OF x(2) ke]
    obtain e where e: "aesEncryptBlock x k = Inr e" "length e = 16" "aesDecryptBlock e k = Inr x"
      by blast
    have "\<exists>c. encryptCBC_loop p k (i + BLOCK_SIZE_BYTES) e (acc @ e) = Inr c
      \<and> length c = length (acc @ e) + (length p - (i + BLOCK_SIZE_BYTES))
      \<and> take (length (acc @ e)) c = acc @ e
      \<and> (\<forall>pacc. decryptCBC_loop c k (length (acc @ e)) e pacc =
             Inr (pacc @ drop (i + BLOCK_SIZE_BYTES) p))"
      using True x(1) e(1) dv le e(2) ke
      by (intro "1.IH" [of block x e]) (simp_all add: block_def BLOCK_SIZE_BYTES_def)
    then obtain c where c: "encryptCBC_loop p k (i + 16) e (acc @ e) = Inr c"
      "length c = length acc + 16 + (length p - (i + 16))"
      "take (length acc + 16) c = acc @ e"
      "\<And>pacc. decryptCBC_loop c k (length acc + 16) e pacc = Inr (pacc @ drop (i + 16) p)"
      using e(2) by (auto simp: BLOCK_SIZE_BYTES_def)
    have enc: "encryptCBC_loop p k i prev acc = Inr c"
      using encryptCBC_loop_step [OF True x(1) [unfolded block_def] e(1)] c(1) by simp
    have len: "length c = length acc + (length p - i)"
      using c(2) le by simp
    have "take (length acc) (take (length acc + 16) c) = acc"
      unfolding c(3) by simp
    then have pre: "take (length acc) c = acc" by simp
    have "drop (length acc) (take (length acc + 16) c) = e"
      unfolding c(3) by simp
    then have sl: "take 16 (drop (length acc) c) = e"
      by (simp add: drop_take)
    have lt: "length acc < length c" using len True by simp
    have bd: "block @ drop (i + 16) p = drop i p"
      using append_take_drop_id [of 16 "drop i p"] by (simp add: block_def add.commute)
    have "decryptCBC_loop c k (length acc) prev pacc = Inr (pacc @ drop i p)" for pacc
      using decryptCBC_loop_step [OF lt e(3) [folded sl] x(3), of pacc] c(4) [of "pacc @ block"]
      by (simp add: sl bd)
    with enc len pre show ?thesis by blast
  qed
qed

section \<open>The step-trace loops follow the plain loops\<close>

lemma encryptCBCWithSteps_loop_done:
  "\<not> i < length (e_paddedPlaintext r) \<Longrightarrow> encryptCBCWithSteps_loop k i prev r = Inr r"
  by (simp add: encryptCBCWithSteps_loop.simps [of k i prev r])

lemma decryptCBCWithSteps_loop_done:
  "\<not> i < length (d_ciphertext r) \<Longrightarrow> decryptCBCWithSteps_loop k i prev r = Inr r"
  by (simp add: decryptCBCWithSteps_loop.simps [of k i prev r])

lemma encrypt_loops_agree:
  "map_sum id (\<lambda>r'. (e_iv r', e_ciphertext r')) (encryptCBCWithSteps_loop k i prev r) =
     map_sum id (\<lambda>c. (e_iv r, c)) (encryptCBC_loop (e_paddedPlaintext r) k i prev (e_ciphertext r))"
proof (induction k i prev r rule: encryptCBCWithSteps_loop.induct)
  case (1 k i prev r)
  show ?case
  proof (cases "i < length (e_paddedPlaintext r)")
    case False
    then show ?thesis
      by (simp add: encryptCBCWithSteps_loop_done encryptCBC_loop_done)
  next
    case True
    show ?thesis
    proof (cases "xorBytes (take BLOCK_SIZE_BYTES (drop i (e_paddedPlaintext r))) prev")
      case (Inl e)
      with True show ?thesis
        by (simp add: encryptCBCWithSteps_loop.simps [of k i prev r]
            encryptCBC_loop.simps [of "e_paddedPlaintext r" k i])
    next
      case x: (Inr x)
      show ?thesis
      proof (cases "aesEncryptBlock x k")
        case (Inl e)
        with True x show ?thesis
          by (simp add: encryptCBCWithSteps_loop.simps [of k i prev r]
              encryptCBC_loop.simps [of "e_paddedPlaintext r" k i])
      next
        case (Inr enc)
        from "1.IH" [OF True refl x Inr] True x Inr show ?thesis
          by (simp add: encryptCBCWithSteps_loop.simps [of k i prev r]
              encryptCBC_loop.simps [of "e_paddedPlaintext r" k i])
      qed
    qed
  qed
qed

lemma decrypt_loops_agree:
  "map_sum id d_paddedPlaintext (decryptCBCWithSteps_loop k i prev r) =
     decryptCBC_loop (d_ciphertext r) k i prev (d_paddedPlaintext r)"
proof (induction k i prev r rule: decryptCBCWithSteps_loop.induct)
  case (1 k i prev r)
  show ?case
  proof (cases "i < length (d_ciphertext r)")
    case False
    then show ?thesis
      by (simp add: decryptCBCWithSteps_loop_done decryptCBC_loop_done)
  next
    case True
    show ?thesis
    proof (cases "aesDecryptBlock (take BLOCK_SIZE_BYTES (drop i (d_ciphertext r))) k")
      case (Inl e)
      with True show ?thesis
        by (simp add: decryptCBCWithSteps_loop.simps [of k i prev r]
            decryptCBC_loop.simps [of "d_ciphertext r" k i])
    next
      case d: (Inr d)
      show ?thesis
      proof (cases "xorBytes d prev")
        case (Inl e)
        with True d show ?thesis
          by (simp add: decryptCBCWithSteps_loop.simps [of k i prev r]
              decryptCBC_loop.simps [of "d_ciphertext r" k i])
      next
        case (Inr x)
        from "1.IH" [OF True refl d Inr] True d Inr show ?thesis
          by (simp add: Let_def decryptCBCWithSteps_loop.simps [of k i prev r]
              decryptCBC_loop.simps [of "d_ciphertext r" k i])
      qed
    qed
  qed
qed


lemma aesDecryptBlock_length: "aesDecryptBlock b k = Inr d \<Longrightarrow> length d = 16"
  by (auto simp: aesDecryptBlock_def Let_def aesDecryptionRound_def state_ok_simps
      intro!: stateToBytes_length split: sum.splits)

lemma aesDecryptBlock_short: "length b \<noteq> 16 \<Longrightarrow> \<exists>e. aesDecryptBlock b k = Inl e"
  by (simp add: aesDecryptBlock_def bytesToState_length split: sum.splits)

lemma decrypt_loop_ragged:
  "i \<le> length c \<Longrightarrow> \<not> 16 dvd (length c - i) \<Longrightarrow> \<exists>e. decryptCBC_loop c k i prev acc = Inl e"
proof (induction c k i prev acc rule: decryptCBC_loop.induct)
  case (1 c k i prev acc)
  from "1.prems" have lt: "i < length c"
    by (cases "i = length c") auto
  define block where "block = take 16 (drop i c)"
  show ?case
  proof (cases "aesDecryptBlock block k")
    case (Inl e)
    with lt show ?thesis
      by (simp add: decryptCBC_loop.simps [of c k i] block_def BLOCK_SIZE_BYTES_def)
  next
    case d: (Inr d)
    have bl: "length block = 16"
      using aesDecryptBlock_short [of block k] d by auto
    then have le: "i + 16 \<le> length c"
      by (simp add: block_def)
    have nd: "\<not> 16 dvd (length c - (i + 16))"
    proof
      assume "16 dvd (length c - (i + 16))"
      then have "16 dvd (length c - (i + 16) + 16)" by simp
      moreover have "length c - (i + 16) + 16 = length c - i" using le by simp
      ultimately show False using "1.prems"(2) by simp
    qed
    show ?thesis
    proof (cases "xorBytes d prev")
      case (Inl e)
      with lt d show ?thesis
        by (simp add: decryptCBC_loop.simps [of c k i] block_def BLOCK_SIZE_BYTES_def)
    next
      case (Inr x)
      have "\<exists>e. decryptCBC_loop c k (i + BLOCK_SIZE_BYTES) (take BLOCK_SIZE_BYTES (drop i c))
                   (acc @ x) = Inl e"
        using lt d Inr le nd
        by (intro "1.IH" [of _ d x]) (simp_all add: block_def BLOCK_SIZE_BYTES_def)
      with lt d Inr show ?thesis
        by (simp add: decryptCBC_loop.simps [of c k i] block_def BLOCK_SIZE_BYTES_def)
    qed
  qed
qed

lemma decrypt_loop_bad_iv:
  assumes "length iv \<noteq> 16" and "c \<noteq> []"
  shows "\<exists>e. decryptCBC_loop c k 0 iv acc = Inl e"
proof (cases "aesDecryptBlock (take 16 c) k")
  case (Inl e)
  with assms(2) show ?thesis
    by (simp add: decryptCBC_loop.simps [of c k 0] BLOCK_SIZE_BYTES_def)
next
  case (Inr d)
  from aesDecryptBlock_length [OF Inr] assms(1) have "length d \<noteq> length iv" by simp
  from xorBytes_mismatch [OF this] Inr assms(2) show ?thesis
    by (simp add: decryptCBC_loop.simps [of c k 0] BLOCK_SIZE_BYTES_def)
qed

lemma decryptCBCWithSteps_eq:
  "decryptCBCWithSteps c k iv =
     (case decryptCBCWithSteps_loop k 0 iv
             \<lparr>d_iv = iv, d_ciphertext = c, d_blocks = [], d_paddedPlaintext = [], d_plaintext = []\<rparr> of
        Inl e \<Rightarrow> Inl (DecryptionFailed e)
      | Inr r \<Rightarrow> (case unpadPKCS7 (d_paddedPlaintext r) of
                   Inl e \<Rightarrow> Inl (DecryptionFailed e)
                 | Inr u \<Rightarrow> Inr (r\<lparr>d_plaintext := u\<rparr>)))"
  by (simp add: decryptCBCWithSteps_def)

lemma decryptCBCWithSteps_via_loop:
  "map_sum id d_plaintext (decryptCBCWithSteps c k iv) =
     (case decryptCBC_loop c k 0 iv [] of
        Inl e \<Rightarrow> Inl (DecryptionFailed e)
      | Inr p \<Rightarrow> (case unpadPKCS7 p of Inl e \<Rightarrow> Inl (DecryptionFailed e) | Inr u \<Rightarrow> Inr u))"
proof -
  define r0 where "r0 = \<lparr>d_iv = iv, d_ciphertext = c, d_blocks = [], d_paddedPlaintext = [],
    d_plaintext = []\<rparr>"
  have "map_sum id d_paddedPlaintext (decryptCBCWithSteps_loop k 0 iv r0) =
      decryptCBC_loop c k 0 iv []"
    using decrypt_loops_agree [of k 0 iv r0] by (simp add: r0_def)
  then show ?thesis
    unfolding decryptCBCWithSteps_eq r0_def [symmetric]
    by (cases "decryptCBCWithSteps_loop k 0 iv r0")
      (auto split: sum.splits)
qed

lemma decrypt_variants_succeed_together:
  "decryptCBC c k iv = Inr p \<longleftrightarrow> (\<exists>r. decryptCBCWithSteps c k iv = Inr r \<and> d_plaintext r = p)"
proof -
  have w: "(\<exists>r. decryptCBCWithSteps c k iv = Inr r \<and> d_plaintext r = p) \<longleftrightarrow>
      map_sum id d_plaintext (decryptCBCWithSteps c k iv) = Inr p"
    by (cases "decryptCBCWithSteps c k iv") auto
  show ?thesis
  proof (cases "length iv = 16 \<and> 16 dvd length c")
    case True
    then show ?thesis
      unfolding w decryptCBCWithSteps_via_loop
      by (auto simp: decryptCBC_def BLOCK_SIZE_BYTES_def dvd_eq_mod_eq_0 split: sum.splits)
  next
    case False
    have "\<exists>e. decryptCBC c k iv = Inl e"
      using False by (auto simp: decryptCBC_def BLOCK_SIZE_BYTES_def dvd_eq_mod_eq_0)
    moreover have "\<exists>e. map_sum id d_plaintext (decryptCBCWithSteps c k iv) = Inl e"
    proof (cases "16 dvd length c")
      case nd: False
      from decrypt_loop_ragged [of 0 c k iv "[]"] nd
      obtain e where "decryptCBC_loop c k 0 iv [] = Inl e" by auto
      then show ?thesis
        unfolding decryptCBCWithSteps_via_loop by simp
    next
      case True
      with False have iv: "length iv \<noteq> 16" by simp
      show ?thesis
      proof (cases "c = []")
        case True
        then show ?thesis
          unfolding decryptCBCWithSteps_via_loop
          by (simp add: decryptCBC_loop_done unpadPKCS7_def)
      next
        case False
        from decrypt_loop_bad_iv [OF iv False, of k "[]"]
        obtain e where "decryptCBC_loop c k 0 iv [] = Inl e" by auto
        then show ?thesis
          unfolding decryptCBCWithSteps_via_loop by simp
      qed
    qed
    ultimately show ?thesis
      unfolding w by auto
  qed
qed

section \<open>Evaluating the FIPS-197 example\<close>

lemma subBytes_explicit:
  "subBytes [[a0, a1, a2, a3], [b0, b1, b2, b3], [c0, c1, c2, c3], [d0, d1, d2, d3]] =
     [[SBOX ! unat a0, SBOX ! unat a1, SBOX ! unat a2, SBOX ! unat a3],
      [SBOX ! unat b0, SBOX ! unat b1, SBOX ! unat b2, SBOX ! unat b3],
      [SBOX ! unat c0, SBOX ! unat c1, SBOX ! unat c2, SBOX ! unat c3],
      [SBOX ! unat d0, SBOX ! unat d1, SBOX ! unat d2, SBOX ! unat d3]]"
  by (simp add: subBytes_def upt_0_4)

lemma shiftRows_explicit:
  "shiftRows [[a0, a1, a2, a3], [b0, b1, b2, b3], [c0, c1, c2, c3], [d0, d1, d2, d3]] =
     [[a0, a1, a2, a3], [b1, b2, b3, b0], [c2, c3, c0, c1], [d3, d0, d1, d2]]"
  by (simp add: shiftRows_def)

lemma mixColumns_explicit:
  "mixColumns [[a0, a1, a2, a3], [b0, b1, b2, b3], [c0, c1, c2, c3], [d0, d1, d2, d3]] =
     [[xtime a0 XOR (xtime b0 XOR b0) XOR c0 XOR d0, xtime a1 XOR (xtime b1 XOR b1) XOR c1 XOR d1,
       xtime a2 XOR (xtime b2 XOR b2) XOR c2 XOR d2, xtime a3 XOR (xtime b3 XOR b3) XOR c3 XOR d3],
      [a0 XOR xtime b0 XOR (xtime c0 XOR c0) XOR d0, a1 XOR xtime b1 XOR (xtime c1 XOR c1) XOR d1,
       a2 XOR xtime b2 XOR (xtime c2 XOR c2) XOR d2, a3 XOR xtime b3 XOR (xtime c3 XOR c3) XOR d3],
      [a0 XOR b0 XOR xtime c0 XOR (xtime d0 XOR d0), a1 XOR b1 XOR xtime c1 XOR (xtime d1 XOR d1),
       a2 XOR b2 XOR xtime c2 XOR (xtime d2 XOR d2), a3 XOR b3 XOR xtime c3 XOR (xtime d3 XOR d3)],
      [(xtime a0 XOR a0) XOR b0 XOR c0 XOR xtime d0, (xtime a1 XOR a1) XOR b1 XOR c1 XOR xtime d1,
       (xtime a2 XOR a2) XOR b2 XOR c2 XOR xtime d2, (xtime a3 XOR a3) XOR b3 XOR c3 XOR xtime d3]]"
  by (simp add: mixColumns_def upt_0_4 MULT_nth)

lemma addRoundKey_explicit:
  "addRoundKey [[a0, a1, a2, a3], [b0, b1, b2, b3], [c0, c1, c2, c3], [d0, d1, d2, d3]]
     [k0, k1, k2, k3, k4, k5, k6, k7, k8, k9, k10, k11, k12, k13, k14, k15] =
     [[a0 XOR k0, a1 XOR k4, a2 XOR k8, a3 XOR k12],
      [b0 XOR k1, b1 XOR k5, b2 XOR k9, b3 XOR k13],
      [c0 XOR k2, c1 XOR k6, c2 XOR k10, c3 XOR k14],
      [d0 XOR k3, d1 XOR k7, d2 XOR k11, d3 XOR k15]]"
  by (simp add: addRoundKey_def upt_0_4)


lemma upt_1_10: "[1..<10] = [1, 2, 3, 4, 5, 6, 7, 8, 9]"
  by (simp add: upt_rec)

lemma fips_schedule:
  "keyExpansion [0x00, 0x01, 0x02, 0x03, 0x04, 0x05, 0x06, 0x07, 0x08, 0x09, 0x0a, 0x0b, 0x0c, 0x0d, 0x0e, 0x0f] = Inr
 [[0x00, 0x01, 0x02, 0x03, 0x04, 0x05, 0x06, 0x07, 0x08, 0x09, 0x0a, 0x0b, 0x0c, 0x0d, 0x0e, 0x0f],
 [0xd6, 0xaa, 0x74, 0xfd, 0xd2, 0xaf, 0x72, 0xfa, 0xda, 0xa6, 0x78, 0xf1, 0xd6, 0xab, 0x76, 0xfe],
 [0xb6, 0x92, 0xcf, 0x0b, 0x64, 0x3d, 0xbd, 0xf1, 0xbe, 0x9b, 0xc5, 0x00, 0x68, 0x30, 0xb3, 0xfe],
 [0xb6, 0xff, 0x74, 0x4e, 0xd2, 0xc2, 0xc9, 0xbf, 0x6c, 0x59, 0x0c, 0xbf, 0x04, 0x69, 0xbf, 0x41],
 [0x47, 0xf7, 0xf7, 0xbc, 0x95, 0x35, 0x3e, 0x03, 0xf9, 0x6c, 0x32, 0xbc, 0xfd, 0x05, 0x8d, 0xfd],
 [0x3c, 0xaa, 0xa3, 0xe8, 0xa9, 0x9f, 0x9d, 0xeb, 0x50, 0xf3, 0xaf, 0x57, 0xad, 0xf6, 0x22, 0xaa],
 [0x5e, 0x39, 0x0f, 0x7d, 0xf7, 0xa6, 0x92, 0x96, 0xa7, 0x55, 0x3d, 0xc1, 0x0a, 0xa3, 0x1f, 0x6b],
 [0x14, 0xf9, 0x70, 0x1a, 0xe3, 0x5f, 0xe2, 0x8c, 0x44, 0x0a, 0xdf, 0x4d, 0x4e, 0xa9, 0xc0, 0x26],
 [0x47, 0x43, 0x87, 0x35, 0xa4, 0x1c, 0x65, 0xb9, 0xe0, 0x16, 0xba, 0xf4, 0xae, 0xbf, 0x7a, 0xd2],
 [0x54, 0x99, 0x32, 0xd1, 0xf0, 0x85, 0x57, 0x68, 0x10, 0x93, 0xed, 0x9c, 0xbe, 0x2c, 0x97, 0x4e],
 [0x13, 0x11, 0x1d, 0x7f, 0xe3, 0x94, 0x4a, 0x17, 0xf3, 0x07, 0xa7, 0x8b, 0x4d, 0x2b, 0x30, 0xc5]]"
  by code_simp

lemma fips_encrypt: "aesEncryptBlock fips_plain fips_key = Inr fips_cipher"
  unfolding fips_plain_def fips_key_def fips_cipher_def
  by (simp add: aesEncryptBlock_def fips_schedule bytesToState_explicit stateToBytes_explicit
      Let_def upt_1_10 aesEncryptionRound_def subBytes_explicit shiftRows_explicit
      mixColumns_explicit addRoundKey_explicit SBOX_def xtime_def)

lemma fips_lengths: "length fips_plain = 16" "length fips_key = 16" "length fips_cipher = 16"
  by (simp_all add: fips_plain_def fips_key_def fips_cipher_def)

lemma fips_decrypt: "aesDecryptBlock fips_cipher fips_key = Inr fips_plain"
proof -
  from keyExpansion_valid [of fips_key] obtain rks where "keyExpansion fips_key = Inr rks"
    by (auto simp: fips_lengths)
  from block_roundtrip [OF fips_lengths(1) this] show ?thesis
    by (simp add: fips_encrypt)
qed

lemma fips_decrypt_loop:
  assumes "xorBytes fips_plain iv = Inr x"
  shows "decryptCBC_loop fips_cipher fips_key 0 iv [] = Inr x"
proof -
  have t: "take 16 (drop 0 fips_cipher) = fips_cipher"
    by (simp add: fips_lengths)
  have "decryptCBC_loop fips_cipher fips_key 0 iv [] =
      decryptCBC_loop fips_cipher fips_key (0 + 16) (take 16 (drop 0 fips_cipher)) ([] @ x)"
    by (rule decryptCBC_loop_step [where d = fips_plain])
      (simp_all add: t fips_lengths fips_decrypt assms)
  then show ?thesis
    by (simp add: decryptCBC_loop_done fips_lengths)
qed

lemma xor_zero_iv: "xorBytes fips_plain [0x00, 0x00, 0x00, 0x00, 0x00, 0x00, 0x00, 0x00, 0x00, 0x00, 0x00, 0x00, 0x00, 0x00, 0x00, 0x00] = Inr fips_plain"
  by (simp add: xorBytes_def fips_plain_def upt_0_16)

lemma xor_other_iv: "xorBytes fips_plain [0x00, 0x00, 0x00, 0x00, 0x00, 0x00, 0x00, 0x00, 0x00, 0x00, 0x00, 0x00, 0x00, 0x00, 0x00, 0xfd] = Inr [0x00, 0x11, 0x22, 0x33, 0x44, 0x55, 0x66, 0x77, 0x88, 0x99, 0xaa, 0xbb, 0xcc, 0xdd, 0xee, 0x02]"
  by (simp add: xorBytes_def fips_plain_def upt_0_16)

lemma unpad_bad_length: "unpadPKCS7 fips_plain = Inl (InvalidPadding (BadLength 255))"
  by (simp add: unpadPKCS7_def fips_plain_def Let_def BLOCK_SIZE_BYTES_def)

lemma unpad_mismatch: "unpadPKCS7 [0x00, 0x11, 0x22, 0x33, 0x44, 0x55, 0x66, 0x77, 0x88, 0x99, 0xaa, 0xbb, 0xcc, 0xdd, 0xee, 0x02] = Inl (InvalidPadding (Mismatch 2 238 14))"
  by (simp add: unpadPKCS7_def Let_def BLOCK_SIZE_BYTES_def upt_rec)

section \<open>Failure modes of the CBC functions\<close>

lemma xor_valid_iv: "xorBytes fips_plain [0x00, 0x00, 0x00, 0x00, 0x00, 0x00, 0x00, 0x00, 0x00, 0x00, 0x00, 0x00, 0x00, 0x00, 0x00, 0xfe] = Inr [0x00, 0x11, 0x22, 0x33, 0x44, 0x55, 0x66, 0x77, 0x88, 0x99, 0xaa, 0xbb, 0xcc, 0xdd, 0xee, 0x01]"
  by (simp add: xorBytes_def fips_plain_def upt_0_16)

lemma unpad_valid: "unpadPKCS7 [0x00, 0x11, 0x22, 0x33, 0x44, 0x55, 0x66, 0x77, 0x88, 0x99, 0xaa, 0xbb, 0xcc, 0xdd, 0xee, 0x01] = Inr [0x00, 0x11, 0x22, 0x33, 0x44, 0x55, 0x66, 0x77, 0x88, 0x99, 0xaa, 0xbb, 0xcc, 0xdd, 0xee]"
  by (simp add: unpadPKCS7_def Let_def BLOCK_SIZE_BYTES_def upt_rec)

lemma fips_cbc_decrypt:
  "decryptCBC fips_cipher fips_key [0x00, 0x00, 0x00, 0x00, 0x00, 0x00, 0x00, 0x00, 0x00, 0x00, 0x00, 0x00, 0x00, 0x00, 0x00, 0xfe] = Inr [0x00, 0x11, 0x22, 0x33, 0x44, 0x55, 0x66, 0x77, 0x88, 0x99, 0xaa, 0xbb, 0xcc, 0xdd, 0xee]"
  by (simp add: decryptCBC_def BLOCK_SIZE_BYTES_def fips_lengths
      fips_decrypt_loop [OF xor_valid_iv] unpad_valid)

lemma padded_nonempty: "16 \<le> length (padPKCS7 m 16)"
proof -
  have "length m mod 16 \<le> length m" by simp
  then show ?thesis by (simp add: padPKCS7_eq)
qed

lemma encryptCBCWithSteps_via_loop:
  "map_sum id (\<lambda>r. (e_iv r, e_ciphertext r)) (encryptCBCWithSteps m k iv) =
     map_sum id (\<lambda>c. (iv, c)) (encryptCBC_loop (padPKCS7 m 16) k 0 iv [])"
  using encrypt_loops_agree
    [of k 0 iv "\<lparr>e_iv = iv, e_plaintext = m, e_paddedPlaintext = padPKCS7 m 16,
                   e_blocks = [], e_ciphertext = []\<rparr>"]
  by (simp add: encryptCBCWithSteps_def Let_def BLOCK_SIZE_BYTES_def)

lemma encrypt_variants_agree:
  assumes "length iv = 16"
  shows "map_sum id (\<lambda>r. \<lparr>c_iv = e_iv r, c_ciphertext = e_ciphertext r\<rparr>)
           (encryptCBCWithSteps m k iv) = encryptCBC rnd m k (Some iv)"
proof -
  have e: "encryptCBC rnd m k (Some iv) =
      map_sum id (\<lambda>c. \<lparr>c_iv = iv, c_ciphertext = c\<rparr>) (encryptCBC_loop (padPKCS7 m 16) k 0 iv [])"
    using assms by (simp add: encryptCBC_def BLOCK_SIZE_BYTES_def Let_def split: sum.splits)
  show ?thesis
    unfolding e using encryptCBCWithSteps_via_loop [of m k iv]
    by (cases "encryptCBCWithSteps m k iv"; cases "encryptCBC_loop (padPKCS7 m 16) k 0 iv []") auto
qed

lemma encrypt_variants_bad_iv:
  assumes "length iv \<noteq> 16"
  shows "encryptCBC rnd m k (Some iv) = Inl (InvalidIVLength (length iv))"
    and "encryptCBCWithSteps m k iv = Inl (LengthMismatch 16 (length iv))"
proof -
  show "encryptCBC rnd m k (Some iv) = Inl (InvalidIVLength (length iv))"
    using assms by (simp add: encryptCBC_def BLOCK_SIZE_BYTES_def)
  define p where "p = padPKCS7 m 16"
  have l: "16 \<le> length p" unfolding p_def by (rule padded_nonempty)
  then have "length (take 16 (drop 0 p)) \<noteq> length iv"
    using assms by simp
  moreover from l have "p \<noteq> []"
    by auto
  ultimately have "encryptCBC_loop p k 0 iv [] = Inl (LengthMismatch 16 (length iv))"
    using xorBytes_mismatch [of "take 16 (drop 0 p)" iv] l
    by (simp add: encryptCBC_loop.simps [of p k 0] BLOCK_SIZE_BYTES_def)
  with encryptCBCWithSteps_via_loop [of m k iv]
  show "encryptCBCWithSteps m k iv = Inl (LengthMismatch 16 (length iv))"
    by (cases "encryptCBCWithSteps m k iv") (simp_all add: p_def)
qed

lemma encrypt_variants_fail_together:
  "(\<exists>e. encryptCBCWithSteps m k iv = Inl e) \<longleftrightarrow> (\<exists>e. encryptCBC rnd m k (Some iv) = Inl e)"
proof (cases "length iv = 16")
  case True
  from encrypt_variants_agree [OF True, of m k rnd] show ?thesis
    by (cases "encryptCBCWithSteps m k iv"; cases "encryptCBC rnd m k (Some iv)") auto
next
  case False
  from encrypt_variants_bad_iv [OF False] show ?thesis by simp
qed

lemma decryptCBCWithSteps_wraps:
  "decryptCBCWithSteps c k iv = Inl e \<Longrightarrow> \<exists>e'. e = DecryptionFailed e'"
  by (auto simp: decryptCBCWithSteps_def Let_def split: sum.splits)

lemma padding_failure_plain:
  assumes "length iv = 16" and "length c mod 16 = 0"
    and "decryptCBC_loop c k 0 iv [] = Inr p" and "unpadPKCS7 p = Inl e"
  shows "decryptCBC c k iv = Inl DecryptionFailedInvalidPadding"
  using assms by (simp add: decryptCBC_def BLOCK_SIZE_BYTES_def)

lemma padding_failure_steps:
  assumes "decryptCBC_loop c k 0 iv [] = Inr p" and "unpadPKCS7 p = Inl e"
  shows "decryptCBCWithSteps c k iv = Inl (DecryptionFailed e)"
  using decryptCBCWithSteps_via_loop [of c k iv] assms
  by (cases "decryptCBCWithSteps c k iv") simp_all

lemma decryptCBC_checks:
  "length iv \<noteq> 16 \<Longrightarrow> decryptCBC c k iv = Inl (InvalidIVLength (length iv))"
  "length iv = 16 \<Longrightarrow> length c mod 16 \<noteq> 0 \<Longrightarrow>
     decryptCBC c k iv = Inl (InvalidCiphertextLength (length c))"
  "length iv = 16 \<Longrightarrow> decryptCBC [] k iv = Inl DecryptionFailedInvalidPadding"
  by (simp_all add: decryptCBC_def BLOCK_SIZE_BYTES_def decryptCBC_loop_done unpadPKCS7_def)

section \<open>On bytes, the engine on JavaScript values is the byte model\<close>

text \<open>
  Each function of the model on JavaScript values, applied to arrays of bytes, returns
  what the function of the byte model returns: the same bytes or the same error.
\<close>

lemma sint_ucast_byte: "sint (ucast (x :: byte) :: 32 word) = uint x"
proof -
  have b: "uint x < 2 ^ 8" using uint_bounded [of x] by simp
  have u: "uint (ucast x :: 32 word) = uint x"
  proof -
    have "take_bit 32 (uint x) = uint x"
      using b by (intro take_bit_int_eq_self) simp_all
    then show ?thesis by (simp add: unsigned_ucast_eq)
  qed
  have "sint (ucast x :: 32 word) = signed_take_bit 31 (uint (ucast x :: 32 word))"
    by (simp add: sint_uint)
  also have "\<dots> = uint x"
  proof -
    have "(- (2 ^ 31) :: int) \<le> 0" by simp
    also have "0 \<le> uint x" by simp
    finally have "- (2 ^ 31) \<le> uint x" .
    moreover have "uint x < 2 ^ 31" using b by simp
    ultimately show ?thesis
      unfolding u by (rule signed_take_bit_int_eq_self)
  qed
  finally show ?thesis .
qed


lemma toInt32_of_byte: "toInt32 (of_byte a) = ucast a"
  by (simp add: toInt32_def of_byte_def)

lemma js_xor_bytes: "js_xor (of_byte a) (of_byte b) = of_byte (a XOR b)"
  unfolding js_xor_def toInt32_of_byte
  by (simp add: unsigned_xor_eq [symmetric] sint_ucast_byte of_byte_def)

lemma js_xor_Num: "\<exists>n. js_xor a b = Num n"
  by (simp add: js_xor_def)

lemma table_at_bytes:
  assumes "length t = 256"
  shows "table_at t (of_byte b) = of_byte (t ! unat b)"
proof -
  have "uint b < 256" using uint_bounded [of b] by simp
  moreover have "nat (uint b) = unat b" by simp
  ultimately show ?thesis
    using assms by (simp add: table_at_def of_byte_def)
qed

lemma table_lengths:
  "length SBOX = 256" "length INV_SBOX = 256" "length MULT_2 = 256" "length MULT_3 = 256"
  "length MULT_9 = 256" "length MULT_11 = 256" "length MULT_13 = 256" "length MULT_14 = 256"
  by (simp_all add: SBOX_def INV_SBOX_def MULT_2_def MULT_3_def MULT_9_def MULT_11_def
      MULT_13_def MULT_14_def all_bytes_def)

lemmas table_bytes = table_lengths [THEN table_at_bytes]

lemma subBytes_js_bytes: "state_ok s \<Longrightarrow> subBytes_js (of_state s) = of_state (subBytes s)"
  by (erule state_obtain) (simp add: subBytes_js_def subBytes_def upt_0_4 table_bytes)


lemma shiftRows_js_bytes: "state_ok s \<Longrightarrow> shiftRows_js (of_state s) = of_state (shiftRows s)"
  by (erule state_obtain) (simp add: shiftRows_js_def shiftRows_def)


lemma mixColumns_js_bytes:
  "state_ok s \<Longrightarrow> mixColumns_js (of_state s) = of_state (mixColumns s)"
  by (erule state_obtain)
    (simp add: mixColumns_js_def mixColumns_def upt_0_4 table_bytes js_xor_bytes xor.assoc)


lemma addRoundKey_js_bytes:
  assumes "state_ok s" and "length k = 16"
  shows "addRoundKey_js (of_state s) (of_bytes k) = of_state (addRoundKey s k)"
proof -
  from assms(2) obtain k0 k1 k2 k3 k4 k5 k6 k7 k8 k9 k10 k11 k12 k13 k14 k15 where
    k: "k = [k0, k1, k2, k3, k4, k5, k6, k7, k8, k9, k10, k11, k12, k13, k14, k15]"
    by (rule list16_obtain)
  from assms(1) show ?thesis
    by (rule state_obtain)
      (simp add: k addRoundKey_js_def addRoundKey_def upt_0_4 js_xor_bytes)
qed

lemma fold_related:
  assumes "R s' s" and "\<And>x s' s. x \<in> set xs \<Longrightarrow> R s' s \<Longrightarrow> R (f' x s') (f x s)"
  shows "R (fold f' xs s') (fold f xs s)"
  using assms by (induction xs arbitrary: s' s) auto

lemma of_byte_0: "of_byte 0 = Num 0"
  by (simp add: of_byte_def)

lemma expand_word_js_bytes:
  assumes "words_ok n w" and "0 < Nk" and "Nk \<le> i" and "i < n"
  shows "expand_word_js Nk (of_state w) i = of_state (expand_word Nk w i)"
proof -
  have i1: "i - 1 < length w" and ik: "i - Nk < length w" and il: "i < length w"
    using assms by (auto simp: words_ok_def)
  have "length (w ! (i - 1)) = 4" "length (w ! (i - Nk)) = 4"
    using assms by (auto intro!: words_ok_nth [of n])
  then obtain t0 t1 t2 t3 u0 u1 u2 u3 where
    t: "w ! (i - 1) = [t0, t1, t2, t3]" and u: "w ! (i - Nk) = [u0, u1, u2, u3]"
    by (elim list4_obtain)
  have t': "of_state w ! (i - 1) = of_bytes [t0, t1, t2, t3]"
    and u': "of_state w ! (i - Nk) = of_bytes [u0, u1, u2, u3]"
    using i1 ik by (simp_all add: t [symmetric] u [symmetric])
  show ?thesis
    unfolding expand_word_js_def expand_word_def Let_def t u t' u'
    by (simp add: upt_0_4 table_bytes js_xor_bytes map_update)
qed

lemma keyExpansion_js_bytes:
  "keyExpansion_js (of_bytes key) = map_sum of_error (map of_bytes) (keyExpansion key)"
proof (cases "length key = 16 \<or> length key = 24 \<or> length key = 32")
  case False
  then show ?thesis
    by (simp add: keyExpansion_js_def keyExpansion_def)
next
  case True
  define Nk where "Nk = length key div 4"
  define n where "n = 4 * (NUM_ROUNDS (if length key = 16 then KEY_SIZES_AES_128
       else if length key = 24 then KEY_SIZES_AES_192 else KEY_SIZES_AES_256) + 1)"
  define R where "R = (\<lambda>w' w. words_ok n w \<and> w' = of_state w)"
  define w1 where "w1 = fold (\<lambda>i w. w[i := [key ! (4 * i), key ! (4 * i + 1),
      key ! (4 * i + 2), key ! (4 * i + 3)]]) [0..<Nk] (replicate n (replicate 4 0))"
  define w1' where "w1' = fold (\<lambda>i w. w[i := [of_bytes key ! (4 * i), of_bytes key ! (4 * i + 1),
      of_bytes key ! (4 * i + 2), of_bytes key ! (4 * i + 3)]]) [0..<Nk]
      (replicate n (replicate 4 (Num 0)))"
  define w2 where "w2 = fold (\<lambda>i w. expand_word Nk w i) [Nk..<n] w1"
  define w2' where "w2' = fold (\<lambda>i w. expand_word_js Nk w i) [Nk..<n] w1'"
  have Nk: "0 < Nk" "4 * Nk = length key"
    using True by (auto simp: Nk_def)
  have r1: "R w1' w1"
    unfolding w1'_def w1_def
  proof (rule fold_related [where R = R])
    show "R (replicate n (replicate 4 (Num 0))) (replicate n (replicate 4 0))"
      by (simp add: R_def words_ok_def of_byte_0)
  next
    fix i w' w assume "i \<in> set [0..<Nk]" and "R w' w"
    then show "R (w'[i := [of_bytes key ! (4 * i), of_bytes key ! (4 * i + 1),
        of_bytes key ! (4 * i + 2), of_bytes key ! (4 * i + 3)]])
      (w[i := [key ! (4 * i), key ! (4 * i + 1), key ! (4 * i + 2), key ! (4 * i + 3)]])"
      using Nk by (auto simp: R_def map_update intro!: words_ok_update)
  qed
  have r2: "R w2' w2"
    unfolding w2'_def w2_def
  proof (rule fold_related [where R = R])
    show "R w1' w1" by (rule r1)
  next
    fix i w' w assume "i \<in> set [Nk..<n]" and "R w' w"
    then show "R (expand_word_js Nk w' i) (expand_word Nk w i)"
      using Nk(1) by (auto simp: R_def intro!: words_ok_expand expand_word_js_bytes [of n])
  qed
  have ok: "words_ok n w2" and w2': "w2' = of_state w2"
    using r2 by (simp_all add: R_def)
  have rounds: "NUM_ROUNDS (if length key = 16 then KEY_SIZES_AES_128
       else if length key = 24 then KEY_SIZES_AES_192 else KEY_SIZES_AES_256) + 1 = n div 4"
    by (simp add: n_def)
  have a: "keyExpansion key = Inr (map (\<lambda>i. concat (map (\<lambda>j. w2 ! (i * 4 + j)) [0..<4])) [0..<n div 4])"
    using True unfolding keyExpansion_def Let_def w2_def w1_def Nk_def rounds [symmetric] n_def
    by auto
  have b: "keyExpansion_js (of_bytes key) =
      Inr (map (\<lambda>i. concat (map (\<lambda>j. w2' ! (i * 4 + j)) [0..<4])) [0..<n div 4])"
    using True unfolding keyExpansion_js_def Let_def w2'_def w1'_def Nk_def rounds [symmetric] n_def
    by auto
  have "concat (map (\<lambda>j. w2' ! (i * 4 + j)) [0..<4]) =
      of_bytes (concat (map (\<lambda>j. w2 ! (i * 4 + j)) [0..<4]))" if "i < n div 4" for i
  proof -
    from that have "i * 4 + 3 < length w2"
      using ok by (auto simp: words_ok_def)
    then show ?thesis
      by (simp add: w2' upt_0_4)
  qed
  then show ?thesis
    unfolding a b by (simp add: comp_def)
qed

lemma bytesToState_js_explicit:
  "bytesToState_js [a0, a1, a2, a3, b0, b1, b2, b3, c0, c1, c2, c3, d0, d1, d2, d3] =
     Inr [[a0, b0, c0, d0], [a1, b1, c1, d1], [a2, b2, c2, d2], [a3, b3, c3, d3]]"
  by (simp add: bytesToState_js_def BLOCK_SIZE_BYTES_def upt_0_16 replicate_4)

lemma stateToBytes_js_explicit:
  "stateToBytes_js [[a0, b0, c0, d0], [a1, b1, c1, d1], [a2, b2, c2, d2], [a3, b3, c3, d3]] =
     [a0, a1, a2, a3, b0, b1, b2, b3, c0, c1, c2, c3, d0, d1, d2, d3]"
  by (simp add: stateToBytes_js_def BLOCK_SIZE_BYTES_def upt_0_4 replicate_16)

lemma bytesToState_js_bytes:
  "bytesToState_js (of_bytes b) = map_sum of_error of_state (bytesToState b)"
proof (cases "length b = 16")
  case True
  then show ?thesis
    by (rule list16_obtain) (simp add: bytesToState_js_explicit bytesToState_explicit)
next
  case False
  then show ?thesis
    by (simp add: bytesToState_js_def bytesToState_def BLOCK_SIZE_BYTES_def)
qed

lemma stateToBytes_js_bytes:
  "state_ok s \<Longrightarrow> stateToBytes_js (of_state s) = of_bytes (stateToBytes s)"
  by (erule state_obtain) (simp add: stateToBytes_js_explicit stateToBytes_explicit)


lemma aesEncryptionRound_js_bytes:
  assumes "state_ok s" and "length k = 16"
  shows "aesEncryptionRound_js (of_state s) (of_bytes k) final =
           of_state (aesEncryptionRound s k final)"
  using assms
  by (simp add: aesEncryptionRound_js_def aesEncryptionRound_def Let_def subBytes_js_bytes
      shiftRows_js_bytes mixColumns_js_bytes addRoundKey_js_bytes state_ok_simps)


lemma encryption_rounds_js_bytes:
  assumes "state_ok s" and "\<forall>r \<in> set rs. r < length rks" and "\<forall>rk \<in> set rks. length rk = 16"
  shows "fold (\<lambda>round state. aesEncryptionRound_js state (map of_bytes rks ! round) False) rs
           (of_state s) =
         of_state (fold (\<lambda>round state. aesEncryptionRound state (rks ! round) False) rs s)"
  using assms(1,2)
proof (induction rs arbitrary: s)
  case Nil
  then show ?case by simp
next
  case (Cons r rs)
  from Cons.prems(2) assms(3) have "length (rks ! r) = 16" by simp
  with Cons.prems show ?case
    by (simp add: aesEncryptionRound_js_bytes Cons.IH state_ok_encryption_round)
qed



lemma aesEncryptBlock_js_bytes:
  "aesEncryptBlock_js (of_bytes b) (of_bytes k) = map_sum of_error of_bytes (aesEncryptBlock b k)"
proof (cases "length k = 16 \<or> length k = 24 \<or> length k = 32")
  case False
  then show ?thesis
    by (simp add: aesEncryptBlock_js_def aesEncryptBlock_def keyExpansion_js_bytes
        keyExpansion_invalid)
next
  case True
  from keyExpansion_valid [OF True] obtain rks where ke: "keyExpansion k = Inr rks"
    and n: "2 \<le> length rks" and l: "\<forall>rk \<in> set rks. length rk = 16"
    by (auto split: if_splits)
  show ?thesis
  proof (cases "length b = 16")
    case False
    then show ?thesis
      by (simp add: aesEncryptBlock_js_def aesEncryptBlock_def keyExpansion_js_bytes ke
          bytesToState_js_bytes bytesToState_length)
  next
    case b: True
    from stateToBytes_bytesToState [OF b] obtain s0 where
      s0: "bytesToState b = Inr s0" "state_ok s0" by blast
    define nr where "nr = length rks - 1"
    have r: "0 < length rks" "nr < length rks" "\<forall>r \<in> set [1..<nr]. r < length rks"
      using n by (auto simp: nr_def)
    have l0: "length (rks ! 0) = 16" "length (rks ! nr) = 16"
      using l r by simp_all
    define s1 where "s1 = addRoundKey s0 (rks ! 0)"
    define s2 where "s2 = fold (\<lambda>round state. aesEncryptionRound state (rks ! round) False)
      [1..<nr] s1"
    define s3 where "s3 = aesEncryptionRound s2 (rks ! nr) True"
    have ok: "state_ok s1" "state_ok s2" "state_ok s3"
      by (simp_all add: s1_def s2_def s3_def state_ok_simps state_ok_encryption_rounds
          state_ok_encryption_round)
    have "aesEncryptBlock b k = Inr (stateToBytes s3)"
      by (simp add: aesEncryptBlock_def ke s0 Let_def nr_def s1_def s2_def s3_def)
    moreover have "aesEncryptBlock_js (of_bytes b) (of_bytes k) = Inr (of_bytes (stateToBytes s3))"
    proof -
      have 1: "addRoundKey_js (of_state s0) (map of_bytes rks ! 0) = of_state s1"
        using r(1) by (simp add: s1_def addRoundKey_js_bytes s0 l0)
      have 2: "fold (\<lambda>round state. aesEncryptionRound_js state (map of_bytes rks ! round) False)
          [1..<nr] (of_state s1) = of_state s2"
        unfolding s2_def by (rule encryption_rounds_js_bytes [OF ok(1) r(3) l])
      have 3: "aesEncryptionRound_js (of_state s2) (map of_bytes rks ! nr) True = of_state s3"
        using r(2) by (simp add: s3_def aesEncryptionRound_js_bytes ok l0)
      show ?thesis
        unfolding aesEncryptBlock_js_def keyExpansion_js_bytes ke bytesToState_js_bytes s0
        by (simp add: Let_def nr_def [symmetric] 1 2 3 stateToBytes_js_bytes ok
            del: One_nat_def)
    qed
    ultimately show ?thesis by simp
  qed
qed


lemma xorBytes_js_bytes:
  "xorBytes_js (of_bytes a) (of_bytes b) = map_sum of_error of_bytes (xorBytes a b)"
proof (cases "length a = length b")
  case True
  then have "map (\<lambda>i. js_xor (of_bytes a ! i) (of_bytes b ! i)) [0..<length a] =
      of_bytes (map (\<lambda>i. a ! i XOR b ! i) [0..<length a])"
    by (simp add: js_xor_bytes)
  with True show ?thesis
    by (simp add: xorBytes_js_def xorBytes_def)
next
  case False
  then show ?thesis
    by (simp add: xorBytes_js_def xorBytes_def)
qed

lemma of_byte_of_nat: "n < 256 \<Longrightarrow> of_byte (of_nat n) = Num (int n)"
  by (simp add: of_byte_def unsigned_of_nat take_bit_nat_eq_self)

lemma padPKCS7_js_eq:
  "padPKCS7_js data bs =
     data @ replicate (bs - length data mod bs) (Num (int (bs - length data mod bs)))"
  by (simp add: padPKCS7_js_def Let_def fold_push)

lemma padPKCS7_js_bytes: "padPKCS7_js (of_bytes d) 16 = of_bytes (padPKCS7 d 16)"
proof -
  have "16 - length d mod 16 < 256" by simp
  from of_byte_of_nat [OF this] show ?thesis
    by (simp add: padPKCS7_js_eq padPKCS7_eq)
qed





declare encryptCBC_loop_js.simps [simp del] decryptCBC_loop_js.simps [simp del]
  encryptCBCWithSteps_loop_js.simps [simp del] decryptCBCWithSteps_loop_js.simps [simp del]


lemma encryptCBC_loop_js_bytes:
  "encryptCBC_loop_js (of_bytes p) (of_bytes k) i (of_bytes prev) (of_bytes acc) =
     map_sum of_error of_bytes (encryptCBC_loop p k i prev acc)"
proof (induction p k i prev acc rule: encryptCBC_loop.induct)
  case (1 p k i prev acc)
  show ?case
  proof (cases "i < length p")
    case False
    then show ?thesis
      by (simp add: encryptCBC_loop_js.simps [of "of_bytes p"] encryptCBC_loop_done)
  next
    case True
    define block where "block = take BLOCK_SIZE_BYTES (drop i p)"
    have bl: "take BLOCK_SIZE_BYTES (drop i (of_bytes p)) = of_bytes block"
      by (simp add: block_def take_map drop_map)
    show ?thesis
    proof (cases "xorBytes block prev")
      case (Inl e)
      with True show ?thesis
        by (simp add: encryptCBC_loop_js.simps [of "of_bytes p"] encryptCBC_loop.simps [of p k i]
            bl xorBytes_js_bytes block_def [symmetric])
    next
      case x: (Inr x)
      show ?thesis
      proof (cases "aesEncryptBlock x k")
        case (Inl e)
        with True x show ?thesis
          by (simp add: encryptCBC_loop_js.simps [of "of_bytes p"]
              encryptCBC_loop.simps [of p k i] bl aesEncryptBlock_js_bytes xorBytes_js_bytes
              block_def [symmetric])
      next
        case (Inr e)
        from "1.IH" [OF True block_def x Inr] True x Inr show ?thesis
          by (simp add: encryptCBC_loop_js.simps [of "of_bytes p"]
              encryptCBC_loop.simps [of p k i] bl aesEncryptBlock_js_bytes xorBytes_js_bytes
              block_def [symmetric])
      qed
    qed
  qed
qed


lemma encryptCBC_js_bytes:
  "encryptCBC_js rnd (of_bytes m) (of_bytes k) (map_option of_bytes iv) =
     map_sum of_error (\<lambda>r. \<lparr>cj_iv = of_bytes (c_iv r), cj_ciphertext = of_bytes (c_ciphertext r)\<rparr>)
       (encryptCBC rnd m k iv)"
proof -
  define v where "v = (case iv of Some v \<Rightarrow> v | None \<Rightarrow> generateRandomBytes rnd BLOCK_SIZE_BYTES)"
  have v: "(case map_option of_bytes iv of Some v \<Rightarrow> v
      | None \<Rightarrow> generateRandomBytes_js rnd BLOCK_SIZE_BYTES) = of_bytes v"
    by (cases iv) (simp_all add: v_def generateRandomBytes_js_def)
  show ?thesis
    using encryptCBC_loop_js_bytes [of "padPKCS7 m 16" k 0 v "[]"]
    unfolding encryptCBC_js_def encryptCBC_def v v_def [symmetric] Let_def
    by (cases "encryptCBC_loop (padPKCS7 m 16) k 0 v []")
      (auto simp: BLOCK_SIZE_BYTES_def padPKCS7_js_bytes)
qed

section \<open>With a key of valid length the engine accepts every array of values\<close>

text \<open>
  Every XOR yields a number, so that whatever values the key, the IV and the blocks
  hold, each block operation returns 16 numbers and the CBC loops run to their end.
\<close>

lemma is_num_simps [simp]:
  "is_num (Num n)" "\<not> is_num NaN" "\<not> is_num Undefined" "is_num (of_byte b)" "is_num (js_xor x y)"
  by (simp_all add: is_num_def of_byte_def js_xor_def)



lemma keyExpansion_js_invalid:
  "\<not> isValidKeyLength k \<Longrightarrow> keyExpansion_js k = Inl (JsInvalidKeyLength (length k))"
  by (simp add: keyExpansion_js_def Let_def isValidKeyLength_def)
















section \<open>Hexadecimal input\<close>










lemmas hex_eval = js_string_def hexToBytes_def isValidHex_def is_space_def parseInt16_def
  hex_digit_def Let_def upt_rec





lemma hex_groups_example:
  "hexToBytes (js_string ''0g zz-f 0x+f'') = [Num 0, NaN, Num (- 15), NaN, Num 15]"
  by (simp add: hex_eval)




section \<open>Claims\<close>

text \<open>
  C1. For every 16-byte block \<open>b\<close> and every key \<open>k\<close> of 16, 24 or 32 bytes,
  \<open>aesEncryptBlock\<close> returns a block, and \<open>aesDecryptBlock\<close> applied to that block
  under the same key returns \<open>b\<close>.
\<close>

theorem aes_block_roundtrip:
  assumes "length b = 16" and "length k = 16 \<or> length k = 24 \<or> length k = 32"
  shows "\<exists>c. aesEncryptBlock b k = Inr c \<and> aesDecryptBlock c k = Inr b"
proof -
  from keyExpansion_valid [OF assms(2)] obtain rks where "keyExpansion k = Inr rks"
    by blast
  from block_roundtrip [OF assms(1) this] show ?thesis
    by blast
qed

theorem aes_block_roundtrip_witness:
  "length [0x00, 0x11, 0x22, 0x33, 0x44, 0x55, 0x66, 0x77,
           0x88, 0x99, 0xaa, 0xbb, 0xcc, 0xdd, 0xee, 0xff :: byte] = 16
   \<and> length [0x00, 0x01, 0x02, 0x03, 0x04, 0x05, 0x06, 0x07,
             0x08, 0x09, 0x0a, 0x0b, 0x0c, 0x0d, 0x0e, 0x0f :: byte] = 16
   \<and> (\<exists>c. aesEncryptBlock
              [0x00, 0x11, 0x22, 0x33, 0x44, 0x55, 0x66, 0x77,
               0x88, 0x99, 0xaa, 0xbb, 0xcc, 0xdd, 0xee, 0xff]
              [0x00, 0x01, 0x02, 0x03, 0x04, 0x05, 0x06, 0x07,
               0x08, 0x09, 0x0a, 0x0b, 0x0c, 0x0d, 0x0e, 0x0f] = Inr c
          \<and> aesDecryptBlock c
              [0x00, 0x01, 0x02, 0x03, 0x04, 0x05, 0x06, 0x07,
               0x08, 0x09, 0x0a, 0x0b, 0x0c, 0x0d, 0x0e, 0x0f] =
            Inr [0x00, 0x11, 0x22, 0x33, 0x44, 0x55, 0x66, 0x77,
                 0x88, 0x99, 0xaa, 0xbb, 0xcc, 0xdd, 0xee, 0xff])"
  using aes_block_roundtrip
    [of "[0x00, 0x11, 0x22, 0x33, 0x44, 0x55, 0x66, 0x77,
          0x88, 0x99, 0xaa, 0xbb, 0xcc, 0xdd, 0xee, 0xff]"
        "[0x00, 0x01, 0x02, 0x03, 0x04, 0x05, 0x06, 0x07,
          0x08, 0x09, 0x0a, 0x0b, 0x0c, 0x0d, 0x0e, 0x0f]"]
  by simp

text \<open>
  C2. For every key \<open>k\<close> of 16, 24 or 32 bytes, every 16-byte IV and every byte
  message \<open>m\<close> of any length, \<open>encryptCBC\<close> with the IV supplied returns a result with
  that IV, and \<open>decryptCBC\<close> applied to its ciphertext under the same key and IV
  returns \<open>m\<close>.
\<close>

theorem cbc_roundtrip:
  assumes "length k = 16 \<or> length k = 24 \<or> length k = 32" and "length iv = 16"
  shows "\<exists>r. encryptCBC rnd m k (Some iv) = Inr r \<and> c_iv r = iv
           \<and> decryptCBC (c_ciphertext r) k iv = Inr m"
proof -
  from keyExpansion_valid [OF assms(1)] obtain rks where ke: "keyExpansion k = Inr rks"
    by blast
  define p where "p = padPKCS7 m 16"
  have "16 dvd (length p - 0)" using padPKCS7_length [of m] by (simp add: p_def dvd_eq_mod_eq_0)
  from cbc_loops_roundtrip [OF ke this, of iv "[]"] assms(2)
  obtain c where c: "encryptCBC_loop p k 0 iv [] = Inr c" "length c = length p"
    "\<And>pacc. decryptCBC_loop c k 0 iv pacc = Inr (pacc @ p)"
    by auto
  have "length c mod 16 = 0"
    using padPKCS7_length [of m] by (simp add: c(2) p_def)
  then have "decryptCBC c k iv = Inr m"
    using assms(2) c(3) [of "[]"] unpad_pad [of m]
    by (simp add: decryptCBC_def BLOCK_SIZE_BYTES_def p_def)
  moreover have "encryptCBC rnd m k (Some iv) = Inr \<lparr>c_iv = iv, c_ciphertext = c\<rparr>"
    using assms(2) c(1) by (simp add: encryptCBC_def BLOCK_SIZE_BYTES_def p_def)
  ultimately show ?thesis by simp
qed

theorem cbc_roundtrip_witness:
  "length (replicate 16 (0 :: byte)) = 16
   \<and> (\<exists>r. encryptCBC (\<lambda>i. 0) [0x48, 0x45, 0x4c, 0x4c, 0x4f] (replicate 16 0)
              (Some (replicate 16 0)) = Inr r
          \<and> c_iv r = replicate 16 0
          \<and> decryptCBC (c_ciphertext r) (replicate 16 0) (replicate 16 0) =
              Inr [0x48, 0x45, 0x4c, 0x4c, 0x4f])"
  using cbc_roundtrip
    [of "replicate 16 0" "replicate 16 0" "\<lambda>i. 0" "[0x48, 0x45, 0x4c, 0x4c, 0x4f]"]
  by simp

text \<open>
  C3. \<open>aesEncryptBlock\<close> applied to the block \<open>00112233445566778899aabbccddeeff\<close>
  under the 16-byte key \<open>000102030405060708090a0b0c0d0e0f\<close> returns exactly the block
  \<open>69c4e0d86a7b0430d8cdb78070b4c55a\<close>, the AES-128 reference vector of FIPS-197.
\<close>

theorem fips197_known_answer:
  "aesEncryptBlock [0x00, 0x11, 0x22, 0x33, 0x44, 0x55, 0x66, 0x77, 0x88, 0x99, 0xaa, 0xbb, 0xcc, 0xdd, 0xee, 0xff]
     [0x00, 0x01, 0x02, 0x03, 0x04, 0x05, 0x06, 0x07, 0x08, 0x09, 0x0a, 0x0b, 0x0c, 0x0d, 0x0e, 0x0f] =
   Inr [0x69, 0xc4, 0xe0, 0xd8, 0x6a, 0x7b, 0x04, 0x30, 0xd8, 0xcd, 0xb7, 0x80, 0x70, 0xb4, 0xc5, 0x5a]"
  using fips_encrypt unfolding fips_plain_def fips_key_def fips_cipher_def .

text \<open>
  C4. \<open>keyExpansion\<close> fails with \<open>InvalidKeyLength\<close> for every key whose length is
  not 16, 24 or 32 bytes; on a key of 16, 24 or 32 bytes it returns exactly 11, 13 or
  15 round keys respectively, each exactly 16 bytes long.
\<close>

theorem keyExpansion_round_keys:
  "(length key \<noteq> 16 \<and> length key \<noteq> 24 \<and> length key \<noteq> 32 \<longrightarrow>
      keyExpansion key = Inl (InvalidKeyLength (length key)))
   \<and> (length key = 16 \<or> length key = 24 \<or> length key = 32 \<longrightarrow>
      (\<exists>rks. keyExpansion key = Inr rks
         \<and> length rks = (if length key = 16 then 11 else if length key = 24 then 13 else 15)
         \<and> (\<forall>rk \<in> set rks. length rk = 16)))"
  using keyExpansion_valid [of key] keyExpansion_invalid [of key] by blast

theorem keyExpansion_round_keys_witness:
  "keyExpansion (replicate 15 0) = Inl (InvalidKeyLength 15)
   \<and> keyExpansion (replicate 17 0) = Inl (InvalidKeyLength 17)
   \<and> (\<exists>rks. keyExpansion (replicate 16 0) = Inr rks \<and> length rks = 11
          \<and> (\<forall>rk \<in> set rks. length rk = 16))
   \<and> (\<exists>rks. keyExpansion (replicate 24 0) = Inr rks \<and> length rks = 13
          \<and> (\<forall>rk \<in> set rks. length rk = 16))
   \<and> (\<exists>rks. keyExpansion (replicate 32 0) = Inr rks \<and> length rks = 15
          \<and> (\<forall>rk \<in> set rks. length rk = 16))"
  using keyExpansion_round_keys [of "replicate 15 0"] keyExpansion_round_keys [of "replicate 17 0"]
    keyExpansion_round_keys [of "replicate 16 0"] keyExpansion_round_keys [of "replicate 24 0"]
    keyExpansion_round_keys [of "replicate 32 0"]
  by simp

text \<open>
  C5. For every byte sequence \<open>data\<close>, \<open>padPKCS7 data 16\<close> is \<open>data\<close> followed by
  exactly \<open>n = 16 - (|data| mod 16)\<close> bytes, each of value \<open>n\<close>, with \<open>n\<close> between 1
  and 16; a message whose length is a multiple of 16, the empty message included, gets
  a full extra block of sixteen bytes of value 16.
\<close>

theorem padPKCS7_appends:
  "(let n = 16 - length data mod 16 in
      padPKCS7 data 16 = data @ replicate n (of_nat n)
      \<and> unat (of_nat n :: byte) = n \<and> 1 \<le> n \<and> n \<le> 16)
   \<and> (length data mod 16 = 0 \<longrightarrow> padPKCS7 data 16 = data @ replicate 16 16)"
proof -
  define n where "n = 16 - length data mod 16"
  have n: "1 \<le> n" "n \<le> 16"
    unfolding n_def by presburger+
  have p: "padPKCS7 data 16 = data @ replicate n (of_nat n)"
    unfolding n_def by (rule padPKCS7_eq)
  have u: "unat (of_nat n :: byte) = n"
    by (rule unat_pad_byte [OF n(2)])
  have f: "padPKCS7 data 16 = data @ replicate 16 16" if "length data mod 16 = 0"
  proof -
    from that have "n = 16" by (simp add: n_def)
    with p show ?thesis by simp
  qed
  from n p u f show ?thesis
    unfolding Let_def n_def [symmetric] by blast
qed

theorem padPKCS7_appends_witness:
  "padPKCS7 [] 16 = replicate 16 16
   \<and> padPKCS7 [0x48, 0x45, 0x4c, 0x4c, 0x4f] 16 =
       [0x48, 0x45, 0x4c, 0x4c, 0x4f] @ replicate 11 11"
  using padPKCS7_appends [of "[]"] padPKCS7_appends [of "[0x48, 0x45, 0x4c, 0x4c, 0x4f]"]
  by (simp add: Let_def)

text \<open>
  C6. \<open>unpadPKCS7\<close> fails with \<open>EmptyInput\<close> exactly when its input is empty.
  Otherwise, with \<open>n\<close> the value of the last byte, it fails with \<open>InvalidPadding\<close>
  exactly when \<open>n = 0\<close>, \<open>n > 16\<close>, \<open>n > |data|\<close> or some byte among the last \<open>n\<close>
  differs from \<open>n\<close>; in every remaining case it returns the input without its last
  \<open>n\<close> bytes. So \<open>unpadPKCS7 (padPKCS7 m 16) = m\<close> for every byte sequence \<open>m\<close>.
\<close>

theorem unpadPKCS7_cases:
  "(unpadPKCS7 data = Inl EmptyInput \<longleftrightarrow> data = [])
   \<and> (data \<noteq> [] \<longrightarrow>
        (let n = unat (last data);
             bad = (n = 0 \<or> n > 16 \<or> n > length data
                    \<or> (\<exists>b \<in> set (drop (length data - n) data). unat b \<noteq> n))
         in ((\<exists>d. unpadPKCS7 data = Inl (InvalidPadding d)) \<longleftrightarrow> bad)
            \<and> (\<not> bad \<longrightarrow> unpadPKCS7 data = Inr (take (length data - n) data))))
   \<and> unpadPKCS7 (padPKCS7 m 16) = Inr m"
  using unpadPKCS7_empty [of data] unpadPKCS7_nonempty [of data] unpad_pad [of m]
  unfolding Let_def by blast

theorem unpadPKCS7_cases_witness:
  "unpadPKCS7 [] = Inl EmptyInput
   \<and> [0x41, 0x42, 0x02, 0x02 :: byte] \<noteq> []
   \<and> unpadPKCS7 [0x41, 0x42, 0x02, 0x02] = Inr [0x41, 0x42]
   \<and> unpadPKCS7 (padPKCS7 [0x41] 16) = Inr [0x41]"
  using unpadPKCS7_cases [of "[]" "[0x41]"]
    unpadPKCS7_cases [of "[0x41, 0x42, 0x02, 0x02]" "[0x41]"]
  by (simp add: Let_def)

text \<open>
  C7, as stated, fails on the empty ciphertext: its length 0 is a multiple of 16, so
  \<open>decryptCBC\<close> passes the length check, decrypts no block, and the padding removal
  fails on the empty plaintext; the error is the generic decryption failure, not
  \<open>InvalidCiphertextLength\<close>.
\<close>

theorem decryptCBC_empty_ciphertext_counterexample:
  "length [0x00, 0x00, 0x00, 0x00, 0x00, 0x00, 0x00, 0x00, 0x00, 0x00, 0x00, 0x00, 0x00, 0x00, 0x00, 0x00] = 16
   \<and> decryptCBC [] [0x00, 0x01, 0x02, 0x03, 0x04, 0x05, 0x06, 0x07, 0x08, 0x09, 0x0a, 0x0b, 0x0c, 0x0d, 0x0e, 0x0f]
        [0x00, 0x00, 0x00, 0x00, 0x00, 0x00, 0x00, 0x00, 0x00, 0x00, 0x00, 0x00, 0x00, 0x00, 0x00, 0x00] = Inl DecryptionFailedInvalidPadding
   \<and> decryptCBC [] [0x00, 0x01, 0x02, 0x03, 0x04, 0x05, 0x06, 0x07, 0x08, 0x09, 0x0a, 0x0b, 0x0c, 0x0d, 0x0e, 0x0f]
        [0x00, 0x00, 0x00, 0x00, 0x00, 0x00, 0x00, 0x00, 0x00, 0x00, 0x00, 0x00, 0x00, 0x00, 0x00, 0x00] \<noteq> Inl (InvalidCiphertextLength 0)"
  by (simp add: decryptCBC_checks(3))

text \<open>
  C7, amended. \<open>decryptCBC\<close> fails with \<open>InvalidIVLength\<close> whenever the IV is not
  exactly 16 bytes and, given a 16-byte IV, with \<open>InvalidCiphertextLength\<close> whenever
  the ciphertext length is not a multiple of 16. Both hold for every key, also one of
  invalid length that no block could be decrypted with, so the failure comes before any
  block is decrypted. The empty ciphertext passes both checks and fails afterwards with
  the generic decryption failure.
\<close>

theorem decryptCBC_length_checks:
  "(length iv \<noteq> 16 \<longrightarrow> decryptCBC c k iv = Inl (InvalidIVLength (length iv)))
   \<and> (length iv = 16 \<and> length c mod 16 \<noteq> 0 \<longrightarrow>
        decryptCBC c k iv = Inl (InvalidCiphertextLength (length c)))
   \<and> (length iv = 16 \<longrightarrow> decryptCBC [] k iv = Inl DecryptionFailedInvalidPadding)"
  using decryptCBC_checks(1,2) [of iv c k] decryptCBC_checks(3) [of iv k] by simp

theorem decryptCBC_length_checks_witness:
  "decryptCBC (replicate 17 0) [] (replicate 15 0) = Inl (InvalidIVLength 15)
   \<and> decryptCBC (replicate 17 0) [] (replicate 16 0) = Inl (InvalidCiphertextLength 17)
   \<and> decryptCBC [] [] (replicate 16 0) = Inl DecryptionFailedInvalidPadding"
  using decryptCBC_length_checks [of "replicate 15 0" "replicate 17 0" "[]"]
    decryptCBC_length_checks [of "replicate 16 0" "replicate 17 0" "[]"]
  by simp

text \<open>
  C8, as stated, fails for \<open>decryptCBCWithSteps\<close>: the same ciphertext block and key
  with two IVs give two padding failures, a length byte of 255 and a padding byte that
  differs from the length byte 2 at position 14, and the two errors differ.
\<close>

theorem padding_errors_counterexample:
  "decryptCBCWithSteps [0x69, 0xc4, 0xe0, 0xd8, 0x6a, 0x7b, 0x04, 0x30, 0xd8, 0xcd, 0xb7, 0x80, 0x70, 0xb4, 0xc5, 0x5a]
     [0x00, 0x01, 0x02, 0x03, 0x04, 0x05, 0x06, 0x07, 0x08, 0x09, 0x0a, 0x0b, 0x0c, 0x0d, 0x0e, 0x0f]
     [0x00, 0x00, 0x00, 0x00, 0x00, 0x00, 0x00, 0x00, 0x00, 0x00, 0x00, 0x00, 0x00, 0x00, 0x00, 0x00] =
     Inl (DecryptionFailed (InvalidPadding (BadLength 255)))
   \<and> decryptCBCWithSteps [0x69, 0xc4, 0xe0, 0xd8, 0x6a, 0x7b, 0x04, 0x30, 0xd8, 0xcd, 0xb7, 0x80, 0x70, 0xb4, 0xc5, 0x5a]
     [0x00, 0x01, 0x02, 0x03, 0x04, 0x05, 0x06, 0x07, 0x08, 0x09, 0x0a, 0x0b, 0x0c, 0x0d, 0x0e, 0x0f]
     [0x00, 0x00, 0x00, 0x00, 0x00, 0x00, 0x00, 0x00, 0x00, 0x00, 0x00, 0x00, 0x00, 0x00, 0x00, 0xfd] =
     Inl (DecryptionFailed (InvalidPadding (Mismatch 2 238 14)))"
  using padding_failure_steps [OF fips_decrypt_loop [OF xor_zero_iv] unpad_bad_length]
    padding_failure_steps [OF fips_decrypt_loop [OF xor_other_iv] unpad_mismatch]
  unfolding fips_cipher_def fips_key_def by simp

text \<open>
  C8, amended. Whenever the block loop of CBC decryption succeeds and the padding
  validation of its output fails with an error \<open>e\<close>, \<open>decryptCBC\<close> (after its
  length checks) surfaces the one generic decryption-failed error, the same for every
  \<open>e\<close>, whereas \<open>decryptCBCWithSteps\<close> surfaces a decryption-failed error that
  embeds \<open>e\<close>: the check that failed, the values involved and the byte position.
\<close>

theorem padding_failure_errors:
  assumes "decryptCBC_loop c k 0 iv [] = Inr p" and "unpadPKCS7 p = Inl e"
  shows "(length iv = 16 \<and> length c mod 16 = 0 \<longrightarrow>
            decryptCBC c k iv = Inl DecryptionFailedInvalidPadding)
         \<and> decryptCBCWithSteps c k iv = Inl (DecryptionFailed e)"
  using padding_failure_plain [of iv c k p e] padding_failure_steps [of c k iv p e] assms
  by simp

theorem padding_failure_errors_witness:
  "decryptCBC_loop [0x69, 0xc4, 0xe0, 0xd8, 0x6a, 0x7b, 0x04, 0x30, 0xd8, 0xcd, 0xb7, 0x80, 0x70, 0xb4, 0xc5, 0x5a]
     [0x00, 0x01, 0x02, 0x03, 0x04, 0x05, 0x06, 0x07, 0x08, 0x09, 0x0a, 0x0b, 0x0c, 0x0d, 0x0e, 0x0f] 0
     [0x00, 0x00, 0x00, 0x00, 0x00, 0x00, 0x00, 0x00, 0x00, 0x00, 0x00, 0x00, 0x00, 0x00, 0x00, 0xfd] [] =
     Inr [0x00, 0x11, 0x22, 0x33, 0x44, 0x55, 0x66, 0x77, 0x88, 0x99, 0xaa, 0xbb, 0xcc, 0xdd, 0xee, 0x02]
   \<and> unpadPKCS7 [0x00, 0x11, 0x22, 0x33, 0x44, 0x55, 0x66, 0x77, 0x88, 0x99, 0xaa, 0xbb, 0xcc, 0xdd, 0xee, 0x02] =
       Inl (InvalidPadding (Mismatch 2 238 14))
   \<and> decryptCBC [0x69, 0xc4, 0xe0, 0xd8, 0x6a, 0x7b, 0x04, 0x30, 0xd8, 0xcd, 0xb7, 0x80, 0x70, 0xb4, 0xc5, 0x5a]
     [0x00, 0x01, 0x02, 0x03, 0x04, 0x05, 0x06, 0x07, 0x08, 0x09, 0x0a, 0x0b, 0x0c, 0x0d, 0x0e, 0x0f]
     [0x00, 0x00, 0x00, 0x00, 0x00, 0x00, 0x00, 0x00, 0x00, 0x00, 0x00, 0x00, 0x00, 0x00, 0x00, 0xfd] =
     Inl DecryptionFailedInvalidPadding
   \<and> decryptCBCWithSteps [0x69, 0xc4, 0xe0, 0xd8, 0x6a, 0x7b, 0x04, 0x30, 0xd8, 0xcd, 0xb7, 0x80, 0x70, 0xb4, 0xc5, 0x5a]
     [0x00, 0x01, 0x02, 0x03, 0x04, 0x05, 0x06, 0x07, 0x08, 0x09, 0x0a, 0x0b, 0x0c, 0x0d, 0x0e, 0x0f]
     [0x00, 0x00, 0x00, 0x00, 0x00, 0x00, 0x00, 0x00, 0x00, 0x00, 0x00, 0x00, 0x00, 0x00, 0x00, 0xfd] =
     Inl (DecryptionFailed (InvalidPadding (Mismatch 2 238 14)))"
  using padding_failure_errors [OF fips_decrypt_loop [OF xor_other_iv] unpad_mismatch]
    fips_decrypt_loop [OF xor_other_iv] unpad_mismatch
  unfolding fips_cipher_def fips_key_def by simp




text \<open>
  C10, as stated, fails in "the same way": with the key and the ciphertext block of the
  FIPS-197 example and an IV of 16 zero bytes, both variants fail when the padding is
  removed, \<open>decryptCBC\<close> with the generic \<open>DecryptionFailedInvalidPadding\<close> and
  \<open>decryptCBCWithSteps\<close> with the wrapper around the padding error, which names the
  length byte 255.
\<close>

theorem step_variants_counterexample:
  "decryptCBC [0x69, 0xc4, 0xe0, 0xd8, 0x6a, 0x7b, 0x04, 0x30, 0xd8, 0xcd, 0xb7, 0x80, 0x70, 0xb4, 0xc5, 0x5a]
     [0x00, 0x01, 0x02, 0x03, 0x04, 0x05, 0x06, 0x07, 0x08, 0x09, 0x0a, 0x0b, 0x0c, 0x0d, 0x0e, 0x0f]
     [0x00, 0x00, 0x00, 0x00, 0x00, 0x00, 0x00, 0x00, 0x00, 0x00, 0x00, 0x00, 0x00, 0x00, 0x00, 0x00] =
     Inl DecryptionFailedInvalidPadding
   \<and> decryptCBCWithSteps [0x69, 0xc4, 0xe0, 0xd8, 0x6a, 0x7b, 0x04, 0x30, 0xd8, 0xcd, 0xb7, 0x80, 0x70, 0xb4, 0xc5, 0x5a]
     [0x00, 0x01, 0x02, 0x03, 0x04, 0x05, 0x06, 0x07, 0x08, 0x09, 0x0a, 0x0b, 0x0c, 0x0d, 0x0e, 0x0f]
     [0x00, 0x00, 0x00, 0x00, 0x00, 0x00, 0x00, 0x00, 0x00, 0x00, 0x00, 0x00, 0x00, 0x00, 0x00, 0x00] =
     Inl (DecryptionFailed (InvalidPadding (BadLength 255)))"
proof -
  have "length [0x00, 0x00, 0x00, 0x00, 0x00, 0x00, 0x00, 0x00, 0x00, 0x00, 0x00, 0x00, 0x00, 0x00, 0x00, 0x00 :: byte] = 16"
    by simp
  moreover have "length fips_cipher mod 16 = 0"
    by (simp add: fips_lengths)
  ultimately show ?thesis
    using padding_failure_plain [OF _ _ fips_decrypt_loop [OF xor_zero_iv] unpad_bad_length]
      padding_failure_steps [OF fips_decrypt_loop [OF xor_zero_iv] unpad_bad_length]
    unfolding fips_cipher_def fips_key_def by simp
qed

text \<open>
  C10, amended. For every plaintext, key and 16-byte IV, \<open>encryptCBCWithSteps\<close>
  yields the same IV and ciphertext as \<open>encryptCBC\<close>, or the same error; for every
  IV, one fails exactly when the other does. \<open>decryptCBCWithSteps\<close> succeeds exactly
  when \<open>decryptCBC\<close> does, with the same plaintext, and fails exactly when it fails;
  its error is then always the wrapper around the error caught, not the error
  \<open>decryptCBC\<close> reports.
\<close>

theorem step_variants_agree:
  "(length iv = 16 \<longrightarrow>
      map_sum id (\<lambda>r. \<lparr>c_iv = e_iv r, c_ciphertext = e_ciphertext r\<rparr>)
        (encryptCBCWithSteps m k iv) = encryptCBC rnd m k (Some iv))
   \<and> ((\<exists>e. encryptCBCWithSteps m k iv = Inl e) \<longleftrightarrow> (\<exists>e. encryptCBC rnd m k (Some iv) = Inl e))
   \<and> (\<forall>p. decryptCBC c k iv = Inr p \<longleftrightarrow>
            (\<exists>r. decryptCBCWithSteps c k iv = Inr r \<and> d_plaintext r = p))
   \<and> ((\<exists>e. decryptCBCWithSteps c k iv = Inl e) \<longleftrightarrow> (\<exists>e. decryptCBC c k iv = Inl e))
   \<and> (\<forall>e. decryptCBCWithSteps c k iv = Inl e \<longrightarrow> (\<exists>e'. e = DecryptionFailed e'))"
proof -
  have d: "decryptCBC c k iv = Inr p \<longleftrightarrow>
      (\<exists>r. decryptCBCWithSteps c k iv = Inr r \<and> d_plaintext r = p)" for p
    by (rule decrypt_variants_succeed_together)
  have f: "(\<exists>e. decryptCBCWithSteps c k iv = Inl e) \<longleftrightarrow> (\<exists>e. decryptCBC c k iv = Inl e)"
  proof (cases "decryptCBC c k iv")
    case (Inl e)
    have "\<not> (\<exists>r. decryptCBCWithSteps c k iv = Inr r)"
    proof
      assume "\<exists>r. decryptCBCWithSteps c k iv = Inr r"
      then obtain r where "decryptCBCWithSteps c k iv = Inr r" ..
      with d [of "d_plaintext r"] Inl show False by simp
    qed
    with Inl show ?thesis
      by (cases "decryptCBCWithSteps c k iv") auto
  next
    case (Inr p)
    with d [of p] show ?thesis by auto
  qed
  from encrypt_variants_agree [of iv m k rnd] encrypt_variants_fail_together [of m k iv rnd]
    d f decryptCBCWithSteps_wraps [of c k iv]
  show ?thesis by blast
qed

theorem step_variants_agree_witness:
  "length [0x00, 0x00, 0x00, 0x00, 0x00, 0x00, 0x00, 0x00, 0x00, 0x00, 0x00, 0x00, 0x00, 0x00, 0x00, 0xfe] = 16
   \<and> map_sum id (\<lambda>r. \<lparr>c_iv = e_iv r, c_ciphertext = e_ciphertext r\<rparr>)
        (encryptCBCWithSteps [0x48, 0x45, 0x4c, 0x4c, 0x4f] [0x00, 0x01, 0x02, 0x03, 0x04, 0x05, 0x06, 0x07, 0x08, 0x09, 0x0a, 0x0b, 0x0c, 0x0d, 0x0e, 0x0f]
           [0x00, 0x00, 0x00, 0x00, 0x00, 0x00, 0x00, 0x00, 0x00, 0x00, 0x00, 0x00, 0x00, 0x00, 0x00, 0xfe]) =
      encryptCBC (\<lambda>i. 0) [0x48, 0x45, 0x4c, 0x4c, 0x4f] [0x00, 0x01, 0x02, 0x03, 0x04, 0x05, 0x06, 0x07, 0x08, 0x09, 0x0a, 0x0b, 0x0c, 0x0d, 0x0e, 0x0f]
        (Some [0x00, 0x00, 0x00, 0x00, 0x00, 0x00, 0x00, 0x00, 0x00, 0x00, 0x00, 0x00, 0x00, 0x00, 0x00, 0xfe])
   \<and> (\<exists>r. decryptCBCWithSteps [0x69, 0xc4, 0xe0, 0xd8, 0x6a, 0x7b, 0x04, 0x30, 0xd8, 0xcd, 0xb7, 0x80, 0x70, 0xb4, 0xc5, 0x5a]
            [0x00, 0x01, 0x02, 0x03, 0x04, 0x05, 0x06, 0x07, 0x08, 0x09, 0x0a, 0x0b, 0x0c, 0x0d, 0x0e, 0x0f]
            [0x00, 0x00, 0x00, 0x00, 0x00, 0x00, 0x00, 0x00, 0x00, 0x00, 0x00, 0x00, 0x00, 0x00, 0x00, 0xfe] = Inr r
          \<and> d_plaintext r = [0x00, 0x11, 0x22, 0x33, 0x44, 0x55, 0x66, 0x77, 0x88, 0x99, 0xaa, 0xbb, 0xcc, 0xdd, 0xee])"
proof -
  note t = step_variants_agree
    [of "[0x00, 0x00, 0x00, 0x00, 0x00, 0x00, 0x00, 0x00, 0x00, 0x00, 0x00, 0x00, 0x00, 0x00, 0x00, 0xfe]"
        "[0x48, 0x45, 0x4c, 0x4c, 0x4f]"
        "[0x00, 0x01, 0x02, 0x03, 0x04, 0x05, 0x06, 0x07, 0x08, 0x09, 0x0a, 0x0b, 0x0c, 0x0d, 0x0e, 0x0f]"
        "\<lambda>i. 0"
        "[0x69, 0xc4, 0xe0, 0xd8, 0x6a, 0x7b, 0x04, 0x30, 0xd8, 0xcd, 0xb7, 0x80, 0x70, 0xb4, 0xc5, 0x5a]"]
  from t have a: "map_sum id (\<lambda>r. \<lparr>c_iv = e_iv r, c_ciphertext = e_ciphertext r\<rparr>)
        (encryptCBCWithSteps [0x48, 0x45, 0x4c, 0x4c, 0x4f] fips_key
           [0x00, 0x00, 0x00, 0x00, 0x00, 0x00, 0x00, 0x00, 0x00, 0x00, 0x00, 0x00, 0x00, 0x00, 0x00, 0xfe]) =
      encryptCBC (\<lambda>i. 0) [0x48, 0x45, 0x4c, 0x4c, 0x4f] fips_key
        (Some [0x00, 0x00, 0x00, 0x00, 0x00, 0x00, 0x00, 0x00, 0x00, 0x00, 0x00, 0x00, 0x00, 0x00, 0x00, 0xfe])"
    by (simp add: fips_key_def)
  from t have "decryptCBC fips_cipher fips_key [0x00, 0x00, 0x00, 0x00, 0x00, 0x00, 0x00, 0x00, 0x00, 0x00, 0x00, 0x00, 0x00, 0x00, 0x00, 0xfe] = Inr [0x00, 0x11, 0x22, 0x33, 0x44, 0x55, 0x66, 0x77, 0x88, 0x99, 0xaa, 0xbb, 0xcc, 0xdd, 0xee] \<longleftrightarrow>
      (\<exists>r. decryptCBCWithSteps fips_cipher fips_key [0x00, 0x00, 0x00, 0x00, 0x00, 0x00, 0x00, 0x00, 0x00, 0x00, 0x00, 0x00, 0x00, 0x00, 0x00, 0xfe] = Inr r
         \<and> d_plaintext r = [0x00, 0x11, 0x22, 0x33, 0x44, 0x55, 0x66, 0x77, 0x88, 0x99, 0xaa, 0xbb, 0xcc, 0xdd, 0xee])"
    unfolding fips_cipher_def fips_key_def by blast
  with fips_cbc_decrypt have b: "\<exists>r. decryptCBCWithSteps fips_cipher fips_key [0x00, 0x00, 0x00, 0x00, 0x00, 0x00, 0x00, 0x00, 0x00, 0x00, 0x00, 0x00, 0x00, 0x00, 0x00, 0xfe] = Inr r
         \<and> d_plaintext r = [0x00, 0x11, 0x22, 0x33, 0x44, 0x55, 0x66, 0x77, 0x88, 0x99, 0xaa, 0xbb, 0xcc, 0xdd, 0xee]"
    by simp
  from a b show ?thesis
    unfolding fips_cipher_def fips_key_def by simp
qed

end
